theory Spec2Isabelle
  imports Complex_Main
begin

section \<open>Data model\<close>

text \<open>
  The module \<^verbatim>\<open>narest.py\<close> analyses the missing values of a pandas DataFrame whose
  rows are indexed by time and whose columns are tickers. A cell is a float or NaN: here
  a \<^typ>\<open>real option\<close>, \<open>None\<close> being NaN; infinite values are left out. A
  column (a pandas Series) is the list of its cells in index order, and a table is the
  list of its columns, all of one length. The time index is strictly increasing, so a row
  label is identified with its position \<open>0, 1, ...\<close>: a label slice \<open>a:b\<close> of
  \<^verbatim>\<open>.loc\<close> (and of \<^verbatim>\<open>[]\<close> on a time-indexed Series) keeps the positions from \<open>a\<close> to
  \<open>b\<close>, both ends included, and a missing bound (Python's \<^verbatim>\<open>None\<close>) leaves that side
  open. Column labels are taken to be distinct.
\<close>

type_synonym cell = "real option"
type_synonym series = "cell list"
type_synonym table = "series list"

datatype py_error = ValueError | ZeroDivisionError | IndexError

text \<open>Arithmetic on cells: NaN is absorbing. These are the exact operations, for the
  difference that \<^verbatim>\<open>find_ffill_nan\<close> compares with 0 and for the percentages, which
  are a quotient of two counts times 100; the rounded operations of the convolution
  follow.\<close>

definition cell_sub :: "cell \<Rightarrow> cell \<Rightarrow> cell" where
  "cell_sub x y = (case x of None \<Rightarrow> None | Some a \<Rightarrow> (case y of None \<Rightarrow> None | Some b \<Rightarrow> Some (a - b)))"

definition cell_mul :: "cell \<Rightarrow> cell \<Rightarrow> cell" where
  "cell_mul x y = (case x of None \<Rightarrow> None | Some a \<Rightarrow> (case y of None \<Rightarrow> None | Some b \<Rightarrow> Some (a * b)))"

text \<open>
  Rounding to the nearest double (IEEE 754 binary64, ties to even): \<open>binary_exponent x\<close>
  is the \<open>e\<close> with \<open>2 ^ e \<le> x < 2 ^ (e + 1)\<close> for a positive \<open>x\<close>, a double has
  53 significant bits, and below \<open>2 ^ - 1022\<close> the spacing of the doubles stays
  \<open>2 ^ - 1074\<close>. Overflow to infinity is left out.
\<close>

fun bit_length :: "nat \<Rightarrow> nat" where
  "bit_length n = (if n = 0 then 0 else Suc (bit_length (n div 2)))"

declare bit_length.simps [simp del]

definition pow2 :: "int \<Rightarrow> real" where
  "pow2 k = (if 0 \<le> k then 2 ^ nat k else 1 / 2 ^ nat (- k))"

definition binary_exponent :: "real \<Rightarrow> int" where
  "binary_exponent x =
     (if 1 \<le> x then int (bit_length (nat \<lfloor>x\<rfloor>)) - 1
      else - int (bit_length (nat (\<lceil>1 / x\<rceil> - 1))))"

definition round_half_even :: "real \<Rightarrow> int" where
  "round_half_even q =
     (if q - of_int \<lfloor>q\<rfloor> < 1 / 2 then \<lfloor>q\<rfloor>
      else if 1 / 2 < q - of_int \<lfloor>q\<rfloor> then \<lfloor>q\<rfloor> + 1
      else if even \<lfloor>q\<rfloor> then \<lfloor>q\<rfloor> else \<lfloor>q\<rfloor> + 1)"

definition fl :: "real \<Rightarrow> real" where
  "fl x =
     (if x = 0 then 0
      else of_int (round_half_even (x / pow2 (max (binary_exponent \<bar>x\<bar>) (- 1022) - 52)))
             * pow2 (max (binary_exponent \<bar>x\<bar>) (- 1022) - 52))"

text \<open>The operations of the machine on cells: the exact result, rounded.\<close>

definition cell_fadd :: "cell \<Rightarrow> cell \<Rightarrow> cell" where
  "cell_fadd x y = (case x of None \<Rightarrow> None | Some a \<Rightarrow> (case y of None \<Rightarrow> None | Some b \<Rightarrow> Some (fl (a + b))))"

definition cell_fmul :: "cell \<Rightarrow> cell \<Rightarrow> cell" where
  "cell_fmul x y = (case x of None \<Rightarrow> None | Some a \<Rightarrow> (case y of None \<Rightarrow> None | Some b \<Rightarrow> Some (fl (a * b))))"

definition cell_fdiv :: "cell \<Rightarrow> cell \<Rightarrow> cell" where
  "cell_fdiv x y = (case x of None \<Rightarrow> None | Some a \<Rightarrow> (case y of None \<Rightarrow> None | Some b \<Rightarrow> Some (fl (a / b))))"

text \<open>Number of rows of a table (the length of its index), read off its first column.\<close>

definition nrows :: "table \<Rightarrow> nat" where
  "nrows df = (case df of [] \<Rightarrow> 0 | c # _ \<Rightarrow> length c)"

text \<open>Python's \<^verbatim>\<open>xs[i]\<close> (a negative index counts from the end) and \<^verbatim>\<open>xs[k:]\<close>.\<close>

definition py_index :: "'a list \<Rightarrow> int \<Rightarrow> py_error + 'a" where
  "py_index xs i =
     (let j = (if i < 0 then i + int (length xs) else i)
      in if j < 0 \<or> int (length xs) \<le> j then Inl IndexError else Inr (xs ! nat j))"

definition py_slice_from :: "'a list \<Rightarrow> int \<Rightarrow> 'a list" where
  "py_slice_from xs k =
     (if k < 0 then drop (nat (max 0 (int (length xs) + k))) xs else drop (nat k) xs)"

text \<open>The first error of a list of results, or all the values.\<close>

fun sequence_err :: "('e + 'a) list \<Rightarrow> 'e + 'a list" where
  "sequence_err [] = Inr []"
| "sequence_err (r # rs) =
     (case r of Inl e \<Rightarrow> Inl e
      | Inr v \<Rightarrow> (case sequence_err rs of Inl e \<Rightarrow> Inl e | Inr vs \<Rightarrow> Inr (v # vs)))"

section \<open>The library calls the module makes\<close>

text \<open>\<^verbatim>\<open>Series.first_valid_index()\<close> and \<^verbatim>\<open>last_valid_index()\<close>: the label of the
  first and of the last cell that is not NaN, Python's \<^verbatim>\<open>None\<close> when every cell is.\<close>

definition first_valid_index :: "series \<Rightarrow> nat option" where
  "first_valid_index ts = List.find (\<lambda>i. ts ! i \<noteq> None) [0..<length ts]"

definition last_valid_index :: "series \<Rightarrow> nat option" where
  "last_valid_index ts = List.find (\<lambda>i. ts ! i \<noteq> None) (rev [0..<length ts])"

text \<open>A Series with its labels, and the label slice \<^verbatim>\<open>s.loc[lo:hi]\<close>.\<close>

definition labelled :: "series \<Rightarrow> (nat \<times> cell) list" where
  "labelled ts = zip [0..<length ts] ts"

definition loc_slice :: "nat option \<Rightarrow> nat option \<Rightarrow> (nat \<times> cell) list \<Rightarrow> (nat \<times> cell) list" where
  "loc_slice lo hi s =
     filter (\<lambda>p. (case lo of None \<Rightarrow> True | Some a \<Rightarrow> a \<le> fst p) \<and>
                 (case hi of None \<Rightarrow> True | Some b \<Rightarrow> fst p \<le> b)) s"

text \<open>The expression \<^verbatim>\<open>ts[ts.first_valid_index():ts.last_valid_index()]\<close> that
  \<^verbatim>\<open>find_contiguous_nan\<close>, \<^verbatim>\<open>pc_nan\<close> and \<^verbatim>\<open>nan_by_window\<close> each start with.\<close>

definition span_restriction :: "series \<Rightarrow> (nat \<times> cell) list" where
  "span_restriction ts = loc_slice (first_valid_index ts) (last_valid_index ts) (labelled ts)"

text \<open>\<^verbatim>\<open>numpy.ones(n)\<close> raises ValueError for a negative \<open>n\<close>.\<close>

definition np_ones :: "int \<Rightarrow> py_error + cell list" where
  "np_ones n = (if n < 0 then Inl ValueError else Inr (replicate (nat n) (Some 1)))"

text \<open>\<^verbatim>\<open>numpy.convolve(a, v, mode="valid")\<close>: an empty operand raises ValueError; the
  operands are swapped when \<open>v\<close> is the longer one; the result has
  \<open>max M N - min M N + 1\<close> entries, entry \<open>k\<close> being the sum over the shorter operand
  \<open>s\<close> of the products \<open>l[k + j] * s[len s - 1 - j]\<close>, added to an accumulator that
  starts at 0 in the order \<open>j = 0, 1, ...\<close>, every product and every sum rounded: the
  loop of numpy's dot product of doubles. (A BLAS kernel, which numpy may call for long
  operands, can add the products in another order.)\<close>

definition convolve_valid :: "cell list \<Rightarrow> cell list \<Rightarrow> py_error + cell list" where
  "convolve_valid a v =
     (if a = [] \<or> v = [] then Inl ValueError
      else let l = (if length a < length v then v else a);
               s = (if length a < length v then a else v);
               n = length s
           in Inr (map (\<lambda>k. foldl (\<lambda>acc j. cell_fadd acc (cell_fmul (l ! (k + j)) (s ! (n - 1 - j))))
                                 (Some 0) [0..<n])
                     [0..<length l - n + 1]))"

text \<open>\<^verbatim>\<open>DataFrame.apply(func, axis=0)\<close>: \<open>func\<close> is called on every column and the
  first exception ends the call. On a frame without column or without row pandas
  instead calls \<open>func\<close> once on an empty Series, ignores the exception that it raises
  (\<^verbatim>\<open>numpy.convolve\<close> raises on an empty operand) and returns a copy of the frame.\<close>

definition frame_apply :: "(series \<Rightarrow> py_error + series) \<Rightarrow> table \<Rightarrow> py_error + table" where
  "frame_apply func df =
     (if df = [] \<or> nrows df = 0 then Inr df else sequence_err (map func df))"

text \<open>An integer count divided by an integer count, as numpy and pandas do it: a float,
  and NaN for \<open>0 / 0\<close>. The divisions of the module have a numerator that is at most the
  denominator, so no other division by zero arises.\<close>

definition true_divide :: "nat \<Rightarrow> nat \<Rightarrow> cell" where
  "true_divide a b = (if b = 0 then None else Some (real a / real b))"

text \<open>Assigning the values \<open>vals\<close> to the rows \<open>rows\<close> of a column: values and rows of
  different lengths are a ValueError.\<close>

definition setitem_rows :: "nat list \<Rightarrow> cell list \<Rightarrow> series \<Rightarrow> py_error + series" where
  "setitem_rows rows vals col =
     (if length vals = length rows then Inr (fold (\<lambda>p c. c[fst p := snd p]) (zip rows vals) col)
      else Inl ValueError)"

text \<open>\<^verbatim>\<open>out.loc[lo:hi, tick] = nan\<close> on the column \<open>tick\<close>.\<close>

definition loc_set_nan :: "nat \<Rightarrow> nat \<Rightarrow> series \<Rightarrow> series" where
  "loc_set_nan lo hi col =
     map (\<lambda>p. if lo \<le> fst p \<and> fst p \<le> hi then None else snd p) (zip [0..<length col] col)"

text \<open>\<^verbatim>\<open>df.isna()\<close> on a column, read as numbers by the convolution.\<close>

definition isna :: "series \<Rightarrow> bool list" where
  "isna ts = map (\<lambda>c. c = None) ts"

definition as_float :: "bool list \<Rightarrow> series" where
  "as_float bs = map (\<lambda>b. Some (if b then 1 else 0)) bs"

text \<open>\<^verbatim>\<open>cumsum()\<close> of a boolean column.\<close>

fun cumsum_from :: "nat \<Rightarrow> bool list \<Rightarrow> nat list" where
  "cumsum_from acc [] = []"
| "cumsum_from acc (b # bs) = (acc + (if b then 1 else 0)) # cumsum_from (acc + (if b then 1 else 0)) bs"

definition cumsum :: "bool list \<Rightarrow> nat list" where
  "cumsum bs = cumsum_from 0 bs"

text \<open>\<^verbatim>\<open>values.groupby(keys).agg(['first', 'size'])\<close> on (value, key) pairs: one row per
  key, keys sorted, with the first value of the group and its size.\<close>

definition groupby_first_size :: "(nat \<times> nat) list \<Rightarrow> (nat \<times> nat) list" where
  "groupby_first_size vs =
     map (\<lambda>k. (fst (hd (filter (\<lambda>p. snd p = k) vs)), length (filter (\<lambda>p. snd p = k) vs)))
         (sort (remdups (map snd vs)))"

section \<open>The functions of the module\<close>

text \<open>\<^verbatim>\<open>rolling_mean_ts(ts, duration)\<close>. The result is the Series on the labels
  \<^verbatim>\<open>ts.index[duration-1:]\<close>, given as (label, value) pairs. The filter is the array of
  ones times the float \<^verbatim>\<open>1/len(convolution_filter)\<close>.\<close>

definition rolling_mean_ts :: "series \<Rightarrow> int \<Rightarrow> py_error + (nat \<times> cell) list" where
  "rolling_mean_ts ts duration =
     (let index = py_slice_from [0..<length ts] (duration - 1)
      in case np_ones duration of Inl e \<Rightarrow> Inl e
         | Inr convolution_filter \<Rightarrow>
             if length convolution_filter = 0 then Inl ZeroDivisionError
             else (case convolve_valid ts
                          (map (cell_fmul (Some (fl (1 / real (length convolution_filter)))))
                               convolution_filter) of
                     Inl e \<Rightarrow> Inl e
                   | Inr ctmp \<Rightarrow>
                       if length ctmp = length index then Inr (zip index ctmp) else Inl ValueError))"

text \<open>\<^verbatim>\<open>rolling_mean_df(df, duration)\<close>: the filter \<^verbatim>\<open>ones(duration)/duration\<close> is
  built first, \<^verbatim>\<open>df.apply\<close> convolves each column with it, and the values are stored
  in the rows \<^verbatim>\<open>output.index[duration-1:]\<close> of an all-NaN table.\<close>

definition rolling_mean_df :: "table \<Rightarrow> int \<Rightarrow> py_error + table" where
  "rolling_mean_df df duration =
     (case np_ones duration of Inl e \<Rightarrow> Inl e
      | Inr ones \<Rightarrow>
          (case frame_apply
                  (\<lambda>col. convolve_valid col (map (\<lambda>c. cell_fdiv c (Some (real_of_int duration))) ones)) df of
             Inl e \<Rightarrow> Inl e
           | Inr convolued \<Rightarrow>
               sequence_err
                 (map (\<lambda>cv. setitem_rows (py_slice_from [0..<nrows df] (duration - 1)) cv
                                (replicate (nrows df) None))
                      convolued)))"

text \<open>\<^verbatim>\<open>find_contiguous_nan(df)\<close>, column by column.\<close>

definition find_contiguous_nan_col :: "series \<Rightarrow> series" where
  "find_contiguous_nan_col ts =
     (let dftmp = span_restriction ts;
          mask = map (\<lambda>p. snd p = None) dftmp;
          keys = cumsum (map Not mask);
          sel = map (\<lambda>q. (fst (fst q), snd q)) (filter (\<lambda>q. snd (fst q) = None) (zip dftmp keys));
          dd = groupby_first_size sel
      in fold (\<lambda>p out. out[fst p := Some (real (snd p))]) dd (replicate (length ts) None))"

definition find_contiguous_nan :: "table \<Rightarrow> table" where
  "find_contiguous_nan df = map find_contiguous_nan_col df"

text \<open>\<^verbatim>\<open>pc_nan(df)\<close>: one value per column.\<close>

definition pc_nan_col :: "series \<Rightarrow> cell" where
  "pc_nan_col ts =
     (let stmp = map snd (span_restriction ts)
      in cell_mul (true_divide (length (filter id (isna stmp))) (length stmp)) (Some 100))"

definition pc_nan :: "table \<Rightarrow> cell list" where
  "pc_nan df = map pc_nan_col df"

text \<open>The body of the loop of \<^verbatim>\<open>nan_by_window\<close> for one ticker: \<open>ts\<close> is the ticker's
  column of \<open>df\<close>, \<open>out\<close> its column of \<open>output\<close>. An IndexError anywhere in the
  \<^verbatim>\<open>try\<close> block ends in \<^verbatim>\<open>output[tick] = nan\<close>, the whole column NaN.\<close>

definition mask_tick :: "series \<Rightarrow> int \<Rightarrow> series \<Rightarrow> series" where
  "mask_tick ts longueur_fenetre out =
     (let idx = map fst (span_restriction ts);
          oidx = [0..<length out];
          all_nan = replicate (length out) None
      in case py_index idx (longueur_fenetre - 1) of Inl e \<Rightarrow> all_nan
         | Inr i0 \<Rightarrow>
        (case py_index idx (- 1) of Inl e \<Rightarrow> all_nan
         | Inr i1 \<Rightarrow>
        (case py_index oidx 0 of Inl e \<Rightarrow> all_nan
         | Inr o0 \<Rightarrow>
        (case py_index oidx (- 1) of Inl e \<Rightarrow> all_nan
         | Inr o1 \<Rightarrow>
             if i1 < o1 then loc_set_nan i1 o1 (loc_set_nan o0 i0 out)
             else loc_set_nan o0 i0 out))))"

definition nan_by_window :: "table \<Rightarrow> int \<Rightarrow> py_error + table" where
  "nan_by_window df longueur_fenetre =
     (case rolling_mean_df (map (\<lambda>ts. as_float (isna ts)) df) longueur_fenetre of
        Inl e \<Rightarrow> Inl e
      | Inr output \<Rightarrow>
          Inr (map (\<lambda>p. mask_tick (fst p) longueur_fenetre
                          (map (\<lambda>c. cell_fmul c (Some (real_of_int longueur_fenetre))) (snd p)))
                   (zip df output)))"

text \<open>\<^verbatim>\<open>nb_valid_windows(df, longueur_fenetre, modif_output)\<close>. The selector is
  \<open>None\<close> for Python's \<^verbatim>\<open>None\<close> and \<open>Some s\<close> for any other object, \<open>Some ''pc''\<close>
  being the string \<^verbatim>\<open>"pc"\<close>. The result is a boolean table or one value per column.\<close>

datatype nvw_output = Mask "bool list list" | Percent "cell list"

definition nb_valid_windows :: "table \<Rightarrow> int \<Rightarrow> string option \<Rightarrow> py_error + nvw_output" where
  "nb_valid_windows df longueur_fenetre modif_output =
     (case nan_by_window df longueur_fenetre of Inl e \<Rightarrow> Inl e
      | Inr npf \<Rightarrow>
          if modif_output = Some ''pc'' then
            Inr (Percent (map (\<lambda>col. cell_mul
                                 (true_divide (length (filter (\<lambda>c. c = Some 0) col))
                                              (length (filter (\<lambda>c. case c of None \<Rightarrow> False | Some x \<Rightarrow> 0 \<le> x) col)))
                                 (Some 100)) npf))
          else if modif_output = None then Inr (Mask (map (map (\<lambda>c. c = Some 0)) npf))
          else Inl ValueError)"

text \<open>\<^verbatim>\<open>find_ffill_nan(df)\<close>: \<^verbatim>\<open>df.shift(1)\<close> moves every column down one row, NaN
  entering at the top.\<close>

definition shift1 :: "series \<Rightarrow> series" where
  "shift1 ts = (if ts = [] then [] else None # butlast ts)"

definition find_ffill_nan :: "table \<Rightarrow> bool list list" where
  "find_ffill_nan df = map (\<lambda>ts. map (\<lambda>p. cell_sub (fst p) (snd p) = Some 0) (zip ts (shift1 ts))) df"

section \<open>Notions of the specification\<close>

text \<open>The ObservedSpan of a series: the sub-sequence from its first to its last
  non-missing value, both included; empty when the series has no non-missing value.\<close>

definition observed_span :: "series \<Rightarrow> series" where
  "observed_span ts = dropWhile (\<lambda>c. c = None) (rev (dropWhile (\<lambda>c. c = None) (rev ts)))"

text \<open>The number of missing entries of a sequence of cells.\<close>

definition missing_count :: "series \<Rightarrow> nat" where
  "missing_count xs = length (filter (\<lambda>c. c = None) xs)"


text \<open>The arithmetic mean of the \<open>w\<close> cells of a series from position \<open>i\<close> on; it
  has no value when one of them is missing.\<close>

definition window_mean :: "series \<Rightarrow> nat \<Rightarrow> nat \<Rightarrow> cell" where
  "window_mean ts i w =
     (if None \<in> set (take w (drop i ts)) then None
      else Some (sum_list (map the (take w (drop i ts))) / real w))"

text \<open>The rounded weighted sum of the \<open>w\<close> cells of a series from position \<open>i\<close> on:
  every cell is multiplied by the weight \<open>r\<close> and the products are added to 0 in the
  order of the positions, every product and every sum being rounded to the nearest
  double; it has no value when one of the cells is missing.\<close>

definition rounded_window_sum :: "series \<Rightarrow> nat \<Rightarrow> nat \<Rightarrow> real \<Rightarrow> cell" where
  "rounded_window_sum ts i w r =
     foldl (\<lambda>acc c. cell_fadd acc (cell_fmul c (Some r))) (Some 0) (take w (drop i ts))"

text \<open>The sum of the run lengths recorded in a column of the output of
  \<^verbatim>\<open>find_contiguous_nan\<close>: the sum of its cells that hold a number.\<close>

definition recorded_total :: "series \<Rightarrow> real" where
  "recorded_total col = sum_list (map (\<lambda>c. case c of None \<Rightarrow> 0 | Some x \<Rightarrow> x) col)"

text \<open>The GapRuns of a sequence of cells whose first position is \<open>p\<close>: every maximal
  contiguous run of missing values, as (start position, length).\<close>

function gap_runs :: "nat \<Rightarrow> series \<Rightarrow> (nat \<times> nat) list" where
  "gap_runs p [] = []"
| "gap_runs p (Some x # cs) = gap_runs (Suc p) cs"
| "gap_runs p (None # cs) =
     (p, Suc (length (takeWhile (\<lambda>c. c = None) cs)))
       # gap_runs (Suc p + length (takeWhile (\<lambda>c. c = None) cs)) (dropWhile (\<lambda>c. c = None) cs)"
  by pat_completeness auto
termination
  by (relation "measure (\<lambda>(p, cs). length cs)") (auto simp: length_dropWhile_le less_Suc_eq_le)

text \<open>The table of run lengths of a sequence of cells: at the first cell of every
  maximal run of missing values the length of the run, and no value anywhere else.
  \<open>prev\<close> is the cell before the sequence.\<close>

fun run_starts :: "cell \<Rightarrow> series \<Rightarrow> series" where
  "run_starts prev [] = []"
| "run_starts prev (c # cs) =
     (if c = None \<and> prev \<noteq> None then Some (real (Suc (length (takeWhile (\<lambda>c. c = None) cs)))) else None)
       # run_starts c cs"

text \<open>The number of missing values among the \<open>w\<close> rows that end at row \<open>j\<close>.\<close>

definition window_count :: "series \<Rightarrow> nat \<Rightarrow> nat \<Rightarrow> cell" where
  "window_count ts j w = Some (real (missing_count (take w (drop (j + 1 - w) ts))))"

text \<open>The table of window counts of a column as the specification states it: the count
  of the window that ends at row \<open>j\<close> where the whole window lies within the
  ObservedSpan, and no value anywhere else.\<close>

definition window_counts_spec :: "series \<Rightarrow> nat \<Rightarrow> series" where
  "window_counts_spec ts w =
     (let lead = length (takeWhile (\<lambda>c. c = None) ts);
          span = length (observed_span ts)
      in map (\<lambda>j. if lead + w \<le> j + 1 \<and> j < lead + span then window_count ts j w else None)
             [0..<length ts])"

text \<open>The table of run lengths of a column as the specification states it: no value
  outside the ObservedSpan, and the run lengths of the span inside it.\<close>

definition gap_lengths_spec :: "series \<Rightarrow> series" where
  "gap_lengths_spec ts =
     (let lead = length (takeWhile (\<lambda>c. c = None) ts);
          span = observed_span ts
      in replicate lead None @ run_starts (Some 0) span
           @ replicate (length ts - (lead + length span)) None)"

section \<open>Auxiliary functions of the proofs\<close>

text \<open>The missing cells of a sequence with the number of non-missing cells before each:
  the values and keys that \<^verbatim>\<open>find_contiguous_nan\<close> groups.\<close>

fun keyed_gaps :: "nat \<Rightarrow> nat \<Rightarrow> series \<Rightarrow> (nat \<times> nat) list" where
  "keyed_gaps p acc [] = []"
| "keyed_gaps p acc (Some x # cs) = keyed_gaps (Suc p) (Suc acc) cs"
| "keyed_gaps p acc (None # cs) = (p, acc) # keyed_gaps (Suc p) acc cs"

text \<open>Writing run lengths at their start positions.\<close>

definition scatter :: "(nat \<times> nat) list \<Rightarrow> series \<Rightarrow> series" where
  "scatter dd out = fold (\<lambda>p out. out[fst p := Some (real (snd p))]) dd out"

text \<open>The count that \<^verbatim>\<open>nan_by_window\<close> computes for the \<open>w\<close> rows that end at row
  \<open>j\<close>: the rounded weighted sum of the indicators of the missing values, with the
  double nearest to \<open>1 / w\<close> as weight, multiplied by \<open>w\<close> and rounded.\<close>

definition rounded_count :: "series \<Rightarrow> nat \<Rightarrow> nat \<Rightarrow> cell" where
  "rounded_count ts j w =
     cell_fmul (rounded_window_sum (as_float (isna ts)) (j + 1 - w) w (fl (1 / real w))) (Some (real w))"

text \<open>The rows of a column at which \<^verbatim>\<open>nan_by_window\<close> keeps a count: from
  \<open>counted_from\<close> on and before \<open>counted_until\<close>.\<close>

definition counted_from :: "series \<Rightarrow> nat \<Rightarrow> nat" where
  "counted_from ts w = (case first_valid_index ts of None \<Rightarrow> w | Some a \<Rightarrow> a + w)"

definition counted_until :: "series \<Rightarrow> nat" where
  "counted_until ts =
     (case last_valid_index ts of None \<Rightarrow> length ts
      | Some b \<Rightarrow> if Suc b = length ts then length ts else b)"

section \<open>The observed span\<close>

lemma first_valid_index_Some:
  "first_valid_index ts = Some a \<longleftrightarrow> a < length ts \<and> ts ! a \<noteq> None \<and> (\<forall>j<a. ts ! j = None)"
  unfolding first_valid_index_def find_Some_iff by auto

lemma last_valid_index_Some:
  "last_valid_index ts = Some b \<longleftrightarrow>
     b < length ts \<and> ts ! b \<noteq> None \<and> (\<forall>j. b < j \<and> j < length ts \<longrightarrow> ts ! j = None)"
proof
  assume "last_valid_index ts = Some b"
  then obtain i where i: "i < length ts" "ts ! (rev [0..<length ts] ! i) \<noteq> None"
      "b = rev [0..<length ts] ! i" "\<forall>j<i. ts ! (rev [0..<length ts] ! j) = None"
    unfolding last_valid_index_def find_Some_iff by auto
  have b: "b = length ts - Suc i" using i(1,3) by (simp add: rev_nth)
  have "ts ! j = None" if "b < j" "j < length ts" for j
  proof -
    have "length ts - Suc j < i" using that b i(1) by arith
    from i(4)[rule_format, OF this] show ?thesis using that by (simp add: rev_nth)
  qed
  then show "b < length ts \<and> ts ! b \<noteq> None \<and> (\<forall>j. b < j \<and> j < length ts \<longrightarrow> ts ! j = None)"
    using i b by auto
next
  assume "b < length ts \<and> ts ! b \<noteq> None \<and> (\<forall>j. b < j \<and> j < length ts \<longrightarrow> ts ! j = None)"
  then have h: "b < length ts" "ts ! b \<noteq> None" "\<And>j. b < j \<Longrightarrow> j < length ts \<Longrightarrow> ts ! j = None"
    by auto
  have k: "length ts - Suc (length ts - Suc b) = b" using h(1) by arith
  show "last_valid_index ts = Some b"
    unfolding last_valid_index_def find_Some_iff
  proof (intro exI[of _ "length ts - Suc b"] conjI allI impI)
    show "length ts - Suc b < length (rev [0..<length ts])" using h(1) by simp
    show "ts ! (rev [0..<length ts] ! (length ts - Suc b)) \<noteq> None" using h(1,2) k by (simp add: rev_nth)
    show "b = rev [0..<length ts] ! (length ts - Suc b)" using h(1) k by (simp add: rev_nth)
    fix j assume j: "j < length ts - Suc b"
    then have "b < length ts - Suc j" "length ts - Suc j < length ts" by arith+
    then have "ts ! (length ts - Suc j) = None" by (rule h(3))
    then show "\<not> ts ! (rev [0..<length ts] ! j) \<noteq> None" using j by (simp add: rev_nth)
  qed
qed

lemma first_valid_index_None: "first_valid_index ts = None \<longleftrightarrow> (\<forall>c\<in>set ts. c = None)"
  unfolding first_valid_index_def find_None_iff all_set_conv_all_nth by simp

lemma last_valid_index_None: "last_valid_index ts = None \<longleftrightarrow> (\<forall>c\<in>set ts. c = None)"
  unfolding last_valid_index_def find_None_iff all_set_conv_all_nth by simp

lemma valid_indices_cases:
  obtains (none) "first_valid_index ts = None" "last_valid_index ts = None"
  | (some) a b where "first_valid_index ts = Some a" "last_valid_index ts = Some b"
      "a \<le> b" "b < length ts"
proof (cases "first_valid_index ts")
  case None
  then show ?thesis using none by (simp add: first_valid_index_None last_valid_index_None)
next
  case (Some a)
  then have "\<not> (\<forall>c\<in>set ts. c = None)" using first_valid_index_None[of ts] by simp
  then obtain b where b: "last_valid_index ts = Some b" using last_valid_index_None[of ts] by auto
  have "a \<le> b"
    using Some b unfolding first_valid_index_Some last_valid_index_Some by (metis not_le_imp_less)
  moreover have "b < length ts" using b by (simp add: last_valid_index_Some)
  ultimately show ?thesis using some Some b by blast
qed

lemma filter_range_upt: "filter (\<lambda>i. a \<le> i \<and> i \<le> b) [0..<n] = [a..<min n (Suc b)]"
proof (induction n)
  case 0
  show ?case by simp
next
  case (Suc n)
  show ?case
  proof (cases "n \<le> b")
    case True
    then show ?thesis using Suc by (cases "a \<le> n") (simp_all add: min_def)
  next
    case False
    then have "min (Suc n) (Suc b) = Suc b" "min n (Suc b) = Suc b" by simp_all
    then show ?thesis using Suc False by simp
  qed
qed

lemma labelled_map: "labelled ts = map (\<lambda>i. (i, ts ! i)) [0..<length ts]"
  unfolding labelled_def by (rule nth_equalityI) auto

lemma span_restriction_Some:
  assumes "first_valid_index ts = Some a" "last_valid_index ts = Some b"
  shows "span_restriction ts = map (\<lambda>i. (i, ts ! i)) [a..<Suc b]"
proof -
  have "b < length ts" using assms(2) by (simp add: last_valid_index_Some)
  then have "min (length ts) (Suc b) = Suc b" by simp
  then have "filter (\<lambda>i. a \<le> i \<and> i \<le> b) [0..<length ts] = [a..<Suc b]"
    by (simp only: filter_range_upt)
  then show ?thesis
    unfolding span_restriction_def loc_slice_def labelled_map assms
    by (simp add: filter_map comp_def)
qed

lemma span_restriction_None:
  assumes "first_valid_index ts = None"
  shows "span_restriction ts = map (\<lambda>i. (i, ts ! i)) [0..<length ts]"
proof -
  have "last_valid_index ts = None"
    using assms by (simp add: first_valid_index_None last_valid_index_None)
  then show ?thesis unfolding span_restriction_def loc_slice_def labelled_map assms by simp
qed

lemma dropWhile_drop_nth:
  assumes "\<forall>j<a. P (xs ! j)" "a < length xs" "\<not> P (xs ! a)"
  shows "dropWhile P xs = drop a xs"
proof -
  have "takeWhile P xs = take a xs" using assms by (intro takeWhile_eq_take_P_nth) auto
  then have "take a xs @ dropWhile P xs = xs" by (metis takeWhile_dropWhile_id)
  then show ?thesis by (metis append_eq_conv_conj assms(2) length_take less_imp_le min.absorb2)
qed

lemma observed_span_Some:
  assumes "first_valid_index ts = Some a" "last_valid_index ts = Some b"
  shows "observed_span ts = map (\<lambda>i. ts ! i) [a..<Suc b]"
proof -
  from assms have a: "a < length ts" "ts ! a \<noteq> None" "\<forall>j<a. ts ! j = None"
    and b: "b < length ts" "ts ! b \<noteq> None" "\<forall>j. b < j \<and> j < length ts \<longrightarrow> ts ! j = None"
    by (simp_all add: first_valid_index_Some last_valid_index_Some)
  have ab: "a \<le> b" using a b by (metis not_le_imp_less)
  have "dropWhile (\<lambda>c. c = None) (rev ts) = drop (length ts - Suc b) (rev ts)"
  proof (rule dropWhile_drop_nth)
    show "\<forall>j<length ts - Suc b. rev ts ! j = None"
    proof (intro allI impI)
      fix j assume j: "j < length ts - Suc b"
      then have "b < length ts - Suc j \<and> length ts - Suc j < length ts" by arith
      then have "ts ! (length ts - Suc j) = None" using b(3) by blast
      then show "rev ts ! j = None" using j by (simp add: rev_nth)
    qed
    show "length ts - Suc b < length (rev ts)" using b by simp
    have "length ts - Suc (length ts - Suc b) = b" using b(1) by arith
    then show "rev ts ! (length ts - Suc b) \<noteq> None" using b by (simp add: rev_nth)
  qed
  then have r: "rev (dropWhile (\<lambda>c. c = None) (rev ts)) = take (Suc b) ts"
    using b(1) by (simp add: rev_drop)
  have "dropWhile (\<lambda>c. c = None) (take (Suc b) ts) = drop a (take (Suc b) ts)"
    by (rule dropWhile_drop_nth) (use a b ab in auto)
  then have "observed_span ts = drop a (take (Suc b) ts)" unfolding observed_span_def r .
  also have "\<dots> = map (\<lambda>i. ts ! i) [a..<Suc b]"
    by (rule nth_equalityI) (use a b ab in \<open>auto simp del: upt_Suc\<close>)
  finally show ?thesis .
qed



lemma leading_missing:
  assumes "first_valid_index ts = Some a"
  shows "length (takeWhile (\<lambda>c. c = None) ts) = a"
proof -
  have a: "a < length ts" "ts ! a \<noteq> None" "\<forall>j<a. ts ! j = None"
    using assms by (simp_all add: first_valid_index_Some)
  have "takeWhile (\<lambda>c. c = None) ts = take a ts"
    using a by (intro takeWhile_eq_take_P_nth) auto
  then show ?thesis using a(1) by simp
qed

section \<open>The percentage of missing values\<close>




section \<open>Valid windows\<close>





section \<open>Repeated values\<close>

lemma cell_sub_eq0: "cell_sub x y = Some 0 \<longleftrightarrow> (x \<noteq> None \<and> x = y)"
  by (auto simp: cell_sub_def split: option.splits)

lemma shift1_nth: "t < length ts \<Longrightarrow> shift1 ts ! t = (if t = 0 then None else ts ! (t - 1))"
  by (cases t) (auto simp: shift1_def nth_butlast)

lemma length_shift1: "length (shift1 ts) = length ts"
  by (simp add: shift1_def)

text \<open>
  Claim C10. \<open>find_ffill_nan\<close> returns the boolean table of the shape of its input that
  is True at row \<open>t\<close> of a column exactly when \<open>t\<close> is not the first row, the value there
  is not missing and it equals the value of the row before (so a comparison with a
  missing marker on either side is False, and the first row is False).
\<close>

theorem find_ffill_nan_spec:
  "find_ffill_nan df =
     map (\<lambda>ts. map (\<lambda>t. 0 < t \<and> ts ! t \<noteq> None \<and> ts ! t = ts ! (t - 1)) [0..<length ts]) df"
  unfolding find_ffill_nan_def
proof (rule map_cong[OF refl])
  fix ts :: series
  show "map (\<lambda>p. cell_sub (fst p) (snd p) = Some 0) (zip ts (shift1 ts)) =
        map (\<lambda>t. 0 < t \<and> ts ! t \<noteq> None \<and> ts ! t = ts ! (t - 1)) [0..<length ts]"
    by (rule nth_equalityI) (auto simp: length_shift1 shift1_nth cell_sub_eq0)
qed

section \<open>Rounding to the nearest double\<close>

text \<open>
  \<open>binary_exponent\<close> is the exponent of the binade of a positive number, a number
  with a significand of at most 53 bits above the smallest exponent is not changed by
  the rounding, and the rounding gives such a number.
\<close>

lemma bit_length_bounds:
  "0 < n \<Longrightarrow> 2 ^ (bit_length n - 1) \<le> n \<and> n < 2 ^ bit_length n"
proof (induction n rule: bit_length.induct)
  case (1 n)
  show ?case
  proof (cases "n div 2 = 0")
    case True
    then have "n = 1" using 1(2) by arith
    then show ?thesis by (simp add: bit_length.simps)
  next
    case False
    then have ih: "2 ^ (bit_length (n div 2) - 1) \<le> n div 2" "n div 2 < 2 ^ bit_length (n div 2)"
      using 1 by auto
    have b: "bit_length n = Suc (bit_length (n div 2))" using 1(2) by (simp add: bit_length.simps)
    have p: "0 < bit_length (n div 2)" using False by (simp add: bit_length.simps)
    then have "(2::nat) ^ bit_length (n div 2) = 2 * 2 ^ (bit_length (n div 2) - 1)"
      by (cases "bit_length (n div 2)") simp_all
    then have "(2::nat) ^ bit_length (n div 2) \<le> n" using ih(1) by arith
    moreover have "n < 2 * 2 ^ bit_length (n div 2)" using ih(2) by arith
    ultimately show ?thesis unfolding b by simp
  qed
qed

lemma pow2_powi: "pow2 k = 2 powi k"
  by (simp add: pow2_def power_int_def field_simps)

lemma pow2_pos: "0 < pow2 k"
  by (simp add: pow2_powi)

lemma pow2_add: "pow2 (a + b) = pow2 a * pow2 b"
  by (simp add: pow2_powi power_int_add)

lemma pow2_mono: "a \<le> b \<Longrightarrow> pow2 a \<le> pow2 b"
  by (simp add: pow2_powi power_int_increasing)

lemma pow2_less: "pow2 a < pow2 b \<Longrightarrow> a < b"
  using pow2_mono[of b a] by (cases "a < b") auto

lemma pow2_nat: "pow2 (int n) = 2 ^ n"
  by (simp add: pow2_def)

lemma pow2_neg_nat: "pow2 (- int n) = 1 / 2 ^ n"
  by (simp add: pow2_def)

lemma binary_exponent_bounds:
  assumes "0 < x"
  shows "pow2 (binary_exponent x) \<le> x" "x < pow2 (binary_exponent x + 1)"
proof -
  have "pow2 (binary_exponent x) \<le> x \<and> x < pow2 (binary_exponent x + 1)"
  proof (cases "1 \<le> x")
    case True
    define n where "n = nat \<lfloor>x\<rfloor>"
    have f1: "1 \<le> \<lfloor>x\<rfloor>" using True by linarith
    then have rn: "real n = of_int \<lfloor>x\<rfloor>" unfolding n_def by simp
    have n: "0 < n" "real n \<le> x" "x < real n + 1"
    proof -
      show "0 < n" using f1 by (simp add: n_def)
      show "real n \<le> x" unfolding rn by linarith
      show "x < real n + 1" unfolding rn by linarith
    qed
    have e: "binary_exponent x = int (bit_length n) - 1" using True by (simp add: binary_exponent_def n_def)
    have bl: "2 ^ (bit_length n - 1) \<le> n" "n < 2 ^ bit_length n" using bit_length_bounds[OF n(1)] by auto
    have p: "0 < bit_length n" using n(1) by (simp add: bit_length.simps)
    then have "int (bit_length n) - 1 = int (bit_length n - 1)" by simp
    then have "pow2 (binary_exponent x) = 2 ^ (bit_length n - 1)" unfolding e by (simp only: pow2_nat)
    also have "\<dots> \<le> real n" using bl(1) by (metis of_nat_le_iff of_nat_numeral of_nat_power)
    finally have lo: "pow2 (binary_exponent x) \<le> x" using n(2) by simp
    have "real n + 1 \<le> 2 ^ bit_length n" using bl(2)
      by (metis Suc_leI of_nat_Suc of_nat_le_iff of_nat_numeral of_nat_power add.commute)
    moreover have "pow2 (binary_exponent x + 1) = 2 ^ bit_length n" unfolding e by (simp add: pow2_nat)
    ultimately show ?thesis using lo n(3) by simp
  next
    case False
    define k where "k = \<lceil>1 / x\<rceil> - 1"
    define n where "n = nat k"
    have x1: "1 < 1 / x" using False assms by simp
    then have k: "1 \<le> k" unfolding k_def by linarith
    have kx: "of_int k < 1 / x" "1 / x \<le> of_int k + 1" unfolding k_def by linarith+
    have rn: "real n = of_int k" unfolding n_def using k by simp
    have n: "0 < n" "real n < 1 / x" "1 / x \<le> real n + 1"
      using k kx unfolding rn by (simp_all add: n_def)
    have e: "binary_exponent x = - int (bit_length n)"
      using False by (simp add: binary_exponent_def n_def k_def)
    have bl: "2 ^ (bit_length n - 1) \<le> n" "n < 2 ^ bit_length n" using bit_length_bounds[OF n(1)] by auto
    have p: "0 < bit_length n" using n(1) by (simp add: bit_length.simps)
    have "real n + 1 \<le> 2 ^ bit_length n" using bl(2)
      by (metis Suc_leI of_nat_Suc of_nat_le_iff of_nat_numeral of_nat_power add.commute)
    then have "1 / x \<le> 2 ^ bit_length n" using n(3) by simp
    then have "1 / 2 ^ bit_length n \<le> x" using assms by (simp add: field_simps)
    moreover have "pow2 (binary_exponent x) = 1 / 2 ^ bit_length n"
      unfolding e by (simp only: pow2_neg_nat)
    ultimately have lo: "pow2 (binary_exponent x) \<le> x" by simp
    have "(2::real) ^ (bit_length n - 1) \<le> real n" using bl(1)
      by (metis of_nat_le_iff of_nat_numeral of_nat_power)
    then have "2 ^ (bit_length n - 1) < 1 / x" using n(2) by linarith
    then have "x < 1 / 2 ^ (bit_length n - 1)" using assms by (simp add: field_simps)
    moreover have "binary_exponent x + 1 = - int (bit_length n - 1)" using e p by simp
    then have "pow2 (binary_exponent x + 1) = 1 / 2 ^ (bit_length n - 1)"
      by (simp only: pow2_neg_nat)
    ultimately show ?thesis using lo by simp
  qed
  then show "pow2 (binary_exponent x) \<le> x" "x < pow2 (binary_exponent x + 1)" by simp_all
qed

lemma round_half_even_int: "round_half_even (of_int m) = m"
  by (simp add: round_half_even_def)

lemma round_half_even_bounds:
  "round_half_even q \<le> \<lfloor>q\<rfloor> + 1" "\<lfloor>q\<rfloor> \<le> round_half_even q"
  by (simp_all add: round_half_even_def)

lemma fl_exact:
  assumes "\<bar>m\<bar> < 2 ^ 53" "- 1074 \<le> e"
  shows "fl (of_int m * pow2 e) = of_int m * pow2 e"
proof (cases "m = 0")
  case True
  then show ?thesis by (simp add: fl_def)
next
  case False
  define y where "y = real_of_int m * pow2 e"
  define ey where "ey = max (binary_exponent \<bar>y\<bar>) (- 1022) - 52"
  have ay: "\<bar>y\<bar> = real_of_int \<bar>m\<bar> * pow2 e"
    using pow2_pos[of e] by (simp add: y_def abs_mult)
  have y0: "0 < \<bar>y\<bar>" using False pow2_pos[of e] by (simp add: y_def)
  have "real_of_int \<bar>m\<bar> < real_of_int (2 ^ 53)" using assms(1) by (simp only: of_int_less_iff)
  then have "real_of_int \<bar>m\<bar> < 2 ^ 53" by simp
  then have "\<bar>y\<bar> < 2 ^ 53 * pow2 e" unfolding ay using pow2_pos[of e] by simp
  also have "\<dots> = pow2 (e + 53)" using pow2_nat[of 53] by (simp add: pow2_add)
  finally have "pow2 (binary_exponent \<bar>y\<bar>) < pow2 (e + 53)"
    using binary_exponent_bounds(1)[OF y0] by simp
  then have "binary_exponent \<bar>y\<bar> < e + 53" by (rule pow2_less)
  then have le: "ey \<le> e" using assms(2) by (simp add: ey_def)
  define d where "d = nat (e - ey)"
  have "e = ey + int d" using le by (simp add: d_def)
  then have pe: "pow2 e = pow2 ey * 2 ^ d" by (simp add: pow2_add pow2_nat)
  have "y / pow2 ey = real_of_int (m * 2 ^ d)"
    unfolding y_def pe using pow2_pos[of ey] by simp
  then have r: "round_half_even (y / pow2 ey) = m * 2 ^ d" by (simp only: round_half_even_int)
  have "y \<noteq> 0" using y0 by simp
  then have "fl y = real_of_int (m * 2 ^ d) * pow2 ey"
    unfolding fl_def ey_def[symmetric] r by simp
  also have "\<dots> = y" unfolding y_def pe by simp
  finally show ?thesis unfolding y_def .
qed

text \<open>Rounding a double again does not change it.\<close>

lemma fl_fl: "fl (fl x) = fl x"
proof (cases "x = 0")
  case True
  then show ?thesis by (simp add: fl_def)
next
  case False
  define e where "e = max (binary_exponent \<bar>x\<bar>) (- 1022) - 52"
  define q where "q = x / pow2 e"
  define m where "m = round_half_even q"
  have fx: "fl x = real_of_int m * pow2 e" using False by (simp add: fl_def e_def q_def m_def)
  have e: "- 1074 \<le> e" by (simp add: e_def)
  have x0: "0 < \<bar>x\<bar>" using False by simp
  have "binary_exponent \<bar>x\<bar> + 1 \<le> e + 53" by (simp add: e_def)
  then have "pow2 (binary_exponent \<bar>x\<bar> + 1) \<le> pow2 (e + 53)" by (rule pow2_mono)
  then have "\<bar>x\<bar> < pow2 (e + 53)" using binary_exponent_bounds(2)[OF x0] by simp
  also have "\<dots> = 2 ^ 53 * pow2 e" using pow2_nat[of 53] by (simp add: pow2_add)
  finally have "\<bar>x\<bar> / pow2 e < 2 ^ 53" using pow2_pos[of e] by (simp add: field_simps)
  then have aq: "\<bar>q\<bar> < 2 ^ 53" using pow2_pos[of e] by (simp add: q_def)
  have "q < real_of_int (2 ^ 53)" "real_of_int (- (2 ^ 53)) < q" using aq by simp_all
  then have "\<lfloor>q\<rfloor> < 2 ^ 53" "- (2 ^ 53) \<le> \<lfloor>q\<rfloor>"
    by (simp_all only: floor_less_iff le_floor_iff less_imp_le)
  then have mb: "m \<le> 2 ^ 53" "- (2 ^ 53) \<le> m"
    using round_half_even_bounds[of q] unfolding m_def by linarith+
  consider "\<bar>m\<bar> < 2 ^ 53" | "m = 2 ^ 53" | "m = - (2 ^ 53)" using mb by linarith
  then show ?thesis
  proof cases
    case 1
    then show ?thesis unfolding fx using e by (rule fl_exact)
  next
    case 2
    have "real_of_int m * pow2 e = real_of_int (2 ^ 52) * pow2 (e + 1)"
      unfolding 2 using pow2_nat[of 1] by (simp add: pow2_add)
    moreover have "fl (real_of_int (2 ^ 52) * pow2 (e + 1)) = real_of_int (2 ^ 52) * pow2 (e + 1)"
      by (rule fl_exact) (use e in simp_all)
    ultimately show ?thesis unfolding fx by simp
  next
    case 3
    have "real_of_int m * pow2 e = real_of_int (- (2 ^ 52)) * pow2 (e + 1)"
      unfolding 3 using pow2_nat[of 1] by (simp add: pow2_add)
    moreover have "fl (real_of_int (- (2 ^ 52)) * pow2 (e + 1)) = real_of_int (- (2 ^ 52)) * pow2 (e + 1)"
      by (rule fl_exact) (use e in simp_all)
    ultimately show ?thesis unfolding fx by simp
  qed
qed

section \<open>The moving average\<close>

text \<open>
  The convolution with a filter of \<open>w\<close> equal weights is, window by window, the rounded
  weighted sum of the window. In exact arithmetic the sum of the products with the
  weight \<open>1 / w\<close> is the arithmetic mean; the machine rounds the weight, every product
  and every partial sum.
\<close>

lemma window_nths:
  assumes "k + n \<le> length l"
  shows "take n (drop k l) = map (\<lambda>j. l ! (k + j)) [0..<n]"
proof (rule nth_equalityI)
  show "length (take n (drop k l)) = length (map (\<lambda>j. l ! (k + j)) [0..<n])"
    using assms by simp
next
  fix i assume "i < length (take n (drop k l))"
  then show "take n (drop k l) ! i = map (\<lambda>j. l ! (k + j)) [0..<n] ! i"
    using assms by simp
qed

lemma foldl_same:
  assumes "\<And>a x. x \<in> set xs \<Longrightarrow> f a x = g a x"
  shows "foldl f a xs = foldl g a xs"
  using assms by (induction xs arbitrary: a) simp_all

lemma foldl_window:
  assumes "k + n \<le> length l"
  shows "foldl (\<lambda>acc j. cell_fadd acc (cell_fmul (l ! (k + j)) (replicate n (Some r) ! (n - 1 - j))))
           (Some 0) [0..<n] = rounded_window_sum l k n r"
proof -
  have "foldl (\<lambda>acc j. cell_fadd acc (cell_fmul (l ! (k + j)) (replicate n (Some r) ! (n - 1 - j))))
           (Some 0) [0..<n]
      = foldl (\<lambda>acc j. cell_fadd acc (cell_fmul (l ! (k + j)) (Some r))) (Some 0) [0..<n]"
    by (rule foldl_same) simp
  also have "\<dots> = foldl (\<lambda>acc c. cell_fadd acc (cell_fmul c (Some r))) (Some 0)
                      (map (\<lambda>j. l ! (k + j)) [0..<n])"
    by (simp only: foldl_map)
  also have "\<dots> = rounded_window_sum l k n r"
    unfolding rounded_window_sum_def window_nths[OF assms] ..
  finally show ?thesis .
qed

lemma convolve_valid_window:
  assumes "1 \<le> w" "w \<le> length ts" "m = length ts - w + 1"
  shows "convolve_valid ts (replicate w (Some r)) = Inr (map (\<lambda>k. rounded_window_sum ts k w r) [0..<m])"
proof -
  have ne: "ts \<noteq> []" "replicate w (Some r) \<noteq> []" using assms by auto
  have entry: "foldl (\<lambda>acc j. cell_fadd acc (cell_fmul (ts ! (k + j)) (replicate w (Some r) ! (w - 1 - j))))
                  (Some 0) [0..<w] = rounded_window_sum ts k w r" if "k < m" for k
  proof -
    have "k + w \<le> length ts" using that assms by arith
    then show ?thesis by (rule foldl_window)
  qed
  have "convolve_valid ts (replicate w (Some r)) =
     Inr (map (\<lambda>k. foldl (\<lambda>acc j. cell_fadd acc (cell_fmul (ts ! (k + j)) (replicate w (Some r) ! (w - 1 - j))))
                  (Some 0) [0..<w]) [0..<m])"
    using ne assms unfolding convolve_valid_def by (simp add: Let_def)
  also have "\<dots> = Inr (map (\<lambda>k. rounded_window_sum ts k w r) [0..<m])"
    using entry by (auto simp del: upt_Suc)
  finally show ?thesis .
qed

lemma py_slice_from_upt:
  assumes "1 \<le> w" "a = w - 1"
  shows "py_slice_from [0..<n] (int w - 1) = [a..<n]"
proof -
  have "nat (int w - 1) = a" using assms by simp
  moreover have "\<not> int w - 1 < 0" using assms by simp
  ultimately show ?thesis by (simp add: py_slice_from_def)
qed

lemma rolling_mean_ts_rounded:
  assumes "1 \<le> w" "w \<le> length ts"
  shows "rolling_mean_ts ts (int w) =
           Inr (map (\<lambda>i. (i + w - 1, rounded_window_sum ts i w (fl (1 / real w))))
                  [0..<length ts - w + 1])"
proof -
  define a where "a = w - 1"
  define m where "m = length ts - w + 1"
  define r where "r = fl (1 / real w)"
  have am: "a + m = length ts" using assms by (simp add: a_def m_def)
  have ones: "np_ones (int w) = Inr (replicate w (Some 1))" by (simp add: np_ones_def)
  have f: "map (cell_fmul (Some (fl (1 / real (length (replicate w (Some (1::real))))))))
             (replicate w (Some 1)) = replicate w (Some r)"
    by (simp add: cell_fmul_def r_def fl_fl)
  have idx: "py_slice_from [0..<length ts] (int w - 1) = [a..<length ts]"
    using assms(1) a_def by (rule py_slice_from_upt)
  have conv: "convolve_valid ts (replicate w (Some r)) = Inr (map (\<lambda>k. rounded_window_sum ts k w r) [0..<m])"
    using assms m_def by (rule convolve_valid_window)
  have len: "length (map (\<lambda>k. rounded_window_sum ts k w r) [0..<m]) = length [a..<length ts]"
    using am by simp
  have z: "zip [a..<length ts] (map (\<lambda>k. rounded_window_sum ts k w r) [0..<m])
      = map (\<lambda>i. (i + w - 1, rounded_window_sum ts i w r)) [0..<m]"
  proof (rule nth_equalityI)
    show "length (zip [a..<length ts] (map (\<lambda>k. rounded_window_sum ts k w r) [0..<m])) =
          length (map (\<lambda>i. (i + w - 1, rounded_window_sum ts i w r)) [0..<m])"
      using am by simp
  next
    fix i assume "i < length (zip [a..<length ts] (map (\<lambda>k. rounded_window_sum ts k w r) [0..<m]))"
    then have i: "i < m" by simp
    then have "a + i < length ts" using am by simp
    moreover have "a + i = i + w - 1" using assms(1) by (simp add: a_def)
    ultimately show "zip [a..<length ts] (map (\<lambda>k. rounded_window_sum ts k w r) [0..<m]) ! i =
          map (\<lambda>i. (i + w - 1, rounded_window_sum ts i w r)) [0..<m] ! i"
      using i by simp
  qed
  have w0: "length (replicate w (Some (1::real))) \<noteq> 0" using assms(1) by simp
  have "rolling_mean_ts ts (int w) = Inr (map (\<lambda>i. (i + w - 1, rounded_window_sum ts i w r)) [0..<m])"
    unfolding rolling_mean_ts_def Let_def ones idx
    by (simp only: sum.case w0 if_False f conv len z simp_thms if_True)
  then show ?thesis by (simp only: m_def r_def)
qed

lemma sequence_err_Inr: "sequence_err (map (\<lambda>x. Inr (f x)) xs) = Inr (map f xs)"
  by (induction xs) auto

lemma scatter_block:
  "a + length vs \<le> length col \<Longrightarrow>
   fold (\<lambda>p c. c[fst p := snd p]) (zip [a..<a + length vs] vs) col = take a col @ vs @ drop (a + length vs) col"
proof (induction vs arbitrary: a col)
  case Nil
  show ?case by simp
next
  case (Cons v vs)
  have u: "[a..<a + length (v # vs)] = a # [Suc a..<Suc a + length vs]"
    by (simp add: upt_rec)
  have "fold (\<lambda>p c. c[fst p := snd p]) (zip [a..<a + length (v # vs)] (v # vs)) col
      = fold (\<lambda>p c. c[fst p := snd p]) (zip [Suc a..<Suc a + length vs] vs) (col[a := v])"
    unfolding u by simp
  also have "\<dots> = take (Suc a) (col[a := v]) @ vs @ drop (Suc a + length vs) (col[a := v])"
    using Cons.prems by (intro Cons.IH) simp
  also have "\<dots> = take a col @ (v # vs) @ drop (a + length (v # vs)) col"
    using Cons.prems by (simp add: take_Suc_conv_app_nth)
  finally show ?case .
qed

lemma setitem_rows_block:
  assumes "a + length cv = N"
  shows "setitem_rows [a..<N] cv (replicate N None) = Inr (replicate a None @ cv)"
proof -
  have r: "[a..<N] = [a..<a + length cv]" using assms by simp
  have "fold (\<lambda>p c. c[fst p := snd p]) (zip [a..<a + length cv] cv) (replicate N None)
      = take a (replicate N None) @ cv @ drop (a + length cv) (replicate N None)"
    by (rule scatter_block) (use assms in simp)
  also have "\<dots> = replicate a None @ cv" using assms by auto
  finally have "fold (\<lambda>p c. c[fst p := snd p]) (zip [a..<N] cv) (replicate N None) = replicate a None @ cv"
    unfolding r .
  moreover have "length cv = length [a..<N]" using assms by auto
  ultimately show ?thesis unfolding setitem_rows_def by simp
qed

lemma frame_apply_rows:
  assumes "df \<noteq> []" "nrows df \<noteq> 0"
  shows "frame_apply func df = sequence_err (map func df)"
  using assms by (simp add: frame_apply_def)

lemma rolling_mean_df_rounded:
  assumes "1 \<le> w" "w \<le> N" "\<forall>ts\<in>set df. length ts = N"
  shows "rolling_mean_df df (int w) =
           Inr (map (\<lambda>ts. replicate (w - 1) None
                            @ map (\<lambda>j. rounded_window_sum ts j w (fl (1 / real w))) [0..<N - w + 1]) df)"
proof (cases df)
  case Nil
  then show ?thesis by (simp add: rolling_mean_df_def np_ones_def frame_apply_def)
next
  case (Cons c cs)
  define a where "a = w - 1"
  define m where "m = N - w + 1"
  define r where "r = fl (1 / real w)"
  have am: "a + m = N" using assms by (simp add: a_def m_def)
  have n: "nrows df = N" using assms(3) Cons by (simp add: nrows_def)
  have ap: "frame_apply func df = sequence_err (map func df)" for func
    using Cons n assms(1,2) by (intro frame_apply_rows) auto
  have ones: "np_ones (int w) = Inr (replicate w (Some 1))" by (simp add: np_ones_def)
  have f: "map (\<lambda>c. cell_fdiv c (Some (real_of_int (int w)))) (replicate w (Some 1))
             = replicate w (Some r)"
    by (simp add: cell_fdiv_def r_def)
  have idx: "py_slice_from [0..<N] (int w - 1) = [a..<N]"
    using assms(1) a_def by (rule py_slice_from_upt)
  have "map (\<lambda>col. convolve_valid col (replicate w (Some r))) df
      = map (\<lambda>col. Inr (map (\<lambda>k. rounded_window_sum col k w r) [0..<m])) df"
  proof (rule map_cong[OF refl])
    fix col assume "col \<in> set df"
    then have "length col = N" using assms(3) by simp
    then show "convolve_valid col (replicate w (Some r)) = Inr (map (\<lambda>k. rounded_window_sum col k w r) [0..<m])"
      using assms(1,2) m_def by (intro convolve_valid_window) simp_all
  qed
  then have conv: "sequence_err (map (\<lambda>col. convolve_valid col (replicate w (Some r))) df)
      = Inr (map (\<lambda>col. map (\<lambda>k. rounded_window_sum col k w r) [0..<m]) df)"
    by (simp only: sequence_err_Inr)
  have "map (\<lambda>cv. setitem_rows [a..<N] cv (replicate N None))
           (map (\<lambda>col. map (\<lambda>k. rounded_window_sum col k w r) [0..<m]) df)
      = map (\<lambda>ts. Inr (replicate a None @ map (\<lambda>j. rounded_window_sum ts j w r) [0..<m])) df"
    unfolding map_map comp_def
    by (rule map_cong[OF refl], rule setitem_rows_block) (use am in simp)
  then have st: "sequence_err (map (\<lambda>cv. setitem_rows [a..<N] cv (replicate N None))
           (map (\<lambda>col. map (\<lambda>k. rounded_window_sum col k w r) [0..<m]) df))
      = Inr (map (\<lambda>ts. replicate a None @ map (\<lambda>j. rounded_window_sum ts j w r) [0..<m]) df)"
    by (simp only: sequence_err_Inr)
  have "rolling_mean_df df (int w) =
           Inr (map (\<lambda>ts. replicate a None @ map (\<lambda>j. rounded_window_sum ts j w r) [0..<m]) df)"
    unfolding rolling_mean_df_def ones n idx ap
    by (simp only: sum.case f conv st)
  then show ?thesis by (simp only: a_def m_def r_def)
qed

lemma rounded_window_sum_missing:
  "(rounded_window_sum ts i w r = None) = (None \<in> set (take w (drop i ts)))"
proof -
  have n: "foldl (\<lambda>acc c. cell_fadd acc (cell_fmul c (Some r))) None xs = None" for xs
    by (induction xs) (simp_all add: cell_fadd_def)
  have "(foldl (\<lambda>acc c. cell_fadd acc (cell_fmul c (Some r))) (Some a) xs = None) = (None \<in> set xs)"
    for a xs
  proof (induction xs arbitrary: a)
    case Nil
    show ?case by simp
  next
    case (Cons x xs)
    show ?case
    proof (cases x)
      case None
      have "cell_fadd (Some a) (cell_fmul None (Some r)) = None"
        by (simp add: cell_fadd_def cell_fmul_def)
      then show ?thesis using None by (simp add: n)
    next
      case (Some v)
      have "cell_fadd (Some a) (cell_fmul (Some v) (Some r)) = Some (fl (a + fl (v * r)))"
        by (simp add: cell_fadd_def cell_fmul_def)
      then show ?thesis using Some Cons[of "fl (a + fl (v * r))"] by simp
    qed
  qed
  then show ?thesis unfolding rounded_window_sum_def .
qed

text \<open>
  Claim C5, as amended. For a sequence of length \<open>N\<close> and a window length \<open>w\<close> with
  \<open>1 \<le> w \<le> N\<close>, \<open>rolling_mean_ts\<close> returns \<open>N - w + 1\<close> values, the one at
  position \<open>i\<close> (labelled \<open>i + w - 1\<close>) being the rounded weighted sum of the input
  positions \<open>i .. i + w - 1\<close>, the weight being the double nearest to \<open>1 / w\<close>; on a
  table whose
  columns have length \<open>N\<close>, \<open>rolling_mean_df\<close> does the same column by column: the
  first \<open>w - 1\<close> rows of each output column are missing and row \<open>j + w - 1\<close> holds the
  rounded weighted sum of the input rows \<open>j .. j + w - 1\<close>. The rounded weighted sum is
  the arithmetic mean up to the rounding of the weight, of the products and of the
  partial sums, and it is missing exactly when the mean is.
\<close>

theorem rolling_mean_rounded:
  assumes "1 \<le> w" "w \<le> N"
  shows "(length ts = N \<longrightarrow>
            rolling_mean_ts ts (int w) =
              Inr (map (\<lambda>i. (i + w - 1, rounded_window_sum ts i w (fl (1 / real w))))
                     [0..<N - w + 1]))
       \<and> ((\<forall>c\<in>set df. length c = N) \<longrightarrow>
            rolling_mean_df df (int w) =
              Inr (map (\<lambda>c. replicate (w - 1) None
                               @ map (\<lambda>j. rounded_window_sum c j w (fl (1 / real w))) [0..<N - w + 1]) df))
       \<and> (\<forall>i r. (rounded_window_sum ts i w r = None) = (window_mean ts i w = None))"
proof -
  have "(rounded_window_sum ts i w r = None) = (window_mean ts i w = None)" for i r
    by (simp add: rounded_window_sum_missing window_mean_def)
  then show ?thesis
    using assms rolling_mean_ts_rounded[of w ts] rolling_mean_df_rounded[of w N df] by blast
qed

theorem rolling_mean_rounded_witness:
  "rolling_mean_ts [Some 1, Some 2, Some 6] 2 = Inr [(1, Some (3 / 2)), (2, Some 4)]
   \<and> rolling_mean_df [[Some 1, Some 2, Some 6], [None, Some 4, Some 4]] 2 =
       Inr [[None, Some (3 / 2), Some 4], [None, None, Some 4]]"
proof -
  have a: "map (\<lambda>i. (i + 2 - 1, rounded_window_sum [Some 1, Some 2, Some 6] i 2 (fl (1 / real 2))))
               [0..<3 - 2 + 1]
             = [(1, Some (3 / 2)), (2, Some 4)]"
    by code_simp
  have b: "map (\<lambda>c. replicate (2 - 1) None
                      @ map (\<lambda>j. rounded_window_sum c j 2 (fl (1 / real 2))) [0..<3 - 2 + 1])
               [[Some 1, Some 2, Some 6], [None, Some 4, Some 4]]
             = [[None, Some (3 / 2), Some 4], [None, None, Some 4]]"
    by code_simp
  have h: "(1::nat) \<le> 2" "(2::nat) \<le> 3" by simp_all
  have l: "length [Some (1::real), Some 2, Some 6] = 3"
      "\<forall>c\<in>set [[Some (1::real), Some 2, Some 6], [None, Some 4, Some 4]]. length c = 3"
    by simp_all
  from rolling_mean_rounded[OF h, of "[Some 1, Some 2, Some 6]"
        "[[Some 1, Some 2, Some 6], [None, Some 4, Some 4]]"] l
  have "rolling_mean_ts [Some 1, Some 2, Some 6] (int 2) =
          Inr (map (\<lambda>i. (i + 2 - 1, rounded_window_sum [Some 1, Some 2, Some 6] i 2 (fl (1 / real 2))))
                 [0..<3 - 2 + 1])"
    and "rolling_mean_df [[Some 1, Some 2, Some 6], [None, Some 4, Some 4]] (int 2) =
          Inr (map (\<lambda>c. replicate (2 - 1) None
                          @ map (\<lambda>j. rounded_window_sum c j 2 (fl (1 / real 2))) [0..<3 - 2 + 1])
               [[Some 1, Some 2, Some 6], [None, Some 4, Some 4]])"
    by blast+
  then show ?thesis unfolding a b by simp
qed

theorem rolling_mean_rounded_counterexample:
  "rolling_mean_ts [Some 1, Some 1, Some 1, Some 1, Some 1, Some 1] 6
     = Inr [(5, Some (9007199254740991 / 9007199254740992))]
   \<and> rolling_mean_df [[Some 1, Some 1, Some 1, Some 1, Some 1, Some 1]] 6
     = Inr [[None, None, None, None, None, Some (9007199254740991 / 9007199254740992)]]
   \<and> window_mean [Some 1, Some 1, Some 1, Some 1, Some 1, Some 1] 0 6 = Some 1"
  by code_simp
section \<open>Windows that are too long, and arguments that are not valid\<close>

lemma convolve_valid_Inl: "convolve_valid a v = Inl e \<Longrightarrow> e = ValueError"
  by (auto simp: convolve_valid_def Let_def split: if_splits)

lemma convolve_valid_cases:
  "convolve_valid a v = Inl ValueError \<and> (a = [] \<or> v = []) \<or>
   (\<exists>r. convolve_valid a v = Inr r \<and> a \<noteq> [] \<and> v \<noteq> [] \<and>
        length r = max (length a) (length v) - min (length a) (length v) + 1)"
  by (auto simp: convolve_valid_def Let_def)

lemma sequence_err_Inl: "sequence_err rs = Inl e \<Longrightarrow> Inl e \<in> set rs"
  by (induction rs) (auto split: sum.splits)

lemma py_slice_from_empty: "n < w \<Longrightarrow> py_slice_from [0..<n] (int w - 1) = []"
  by (auto simp: py_slice_from_def)

lemma rolling_mean_ts_too_long:
  assumes "length ts < w"
  shows "rolling_mean_ts ts (int w) = Inl ValueError"
proof -
  have ones: "np_ones (int w) = Inr (replicate w (Some 1))" by (simp add: np_ones_def)
  have w0: "length (replicate w (Some (1::real))) \<noteq> 0" using assms by simp
  have idx: "py_slice_from [0..<length ts] (int w - 1) = []" using assms by (rule py_slice_from_empty)
  let ?f = "map (cell_fmul (Some (fl (1 / real (length (replicate w (Some (1::real))))))))
             (replicate w (Some 1))"
  have lf: "length ?f = w" by simp
  consider "convolve_valid ts ?f = Inl ValueError"
    | r where "convolve_valid ts ?f = Inr r" "length r = max (length ts) (length ?f) - min (length ts) (length ?f) + 1"
    using convolve_valid_cases[of ts ?f] by blast
  then show ?thesis
  proof cases
    case 1
    then show ?thesis unfolding rolling_mean_ts_def Let_def ones idx
      by (simp only: sum.case w0 if_False)
  next
    case 2
    then have "length r \<noteq> length ([]::nat list)" by simp
    then show ?thesis unfolding rolling_mean_ts_def Let_def ones idx
      using 2(1) by (simp only: sum.case w0 if_False)
  qed
qed

lemma setitem_rows_Inl: "setitem_rows rows vals col = Inl e \<Longrightarrow> e = ValueError"
  by (auto simp: setitem_rows_def split: if_splits)

lemma frame_apply_Inl:
  assumes "frame_apply func df = Inl e"
  shows "\<exists>col\<in>set df. func col = Inl e"
proof -
  have "sequence_err (map func df) = Inl e"
    using assms by (auto simp: frame_apply_def split: if_splits)
  then have "Inl e \<in> set (map func df)" by (rule sequence_err_Inl)
  then show ?thesis by auto
qed

lemma rolling_mean_df_Inl:
  assumes "rolling_mean_df df W = Inl e"
  shows "e = ValueError"
proof (cases "np_ones W")
  case (Inl e')
  then show ?thesis using assms by (auto simp: rolling_mean_df_def np_ones_def split: if_splits)
next
  case (Inr ones)
  let ?func = "\<lambda>col. convolve_valid col (map (\<lambda>c. cell_fdiv c (Some (real_of_int W))) ones)"
  show ?thesis
  proof (cases "frame_apply ?func df")
    case (Inl e')
    then have "e' = e" using assms Inr by (simp add: rolling_mean_df_def)
    then obtain col where "?func col = Inl e" using frame_apply_Inl[OF Inl] by auto
    then show ?thesis by (rule convolve_valid_Inl)
  next
    case (Inr convolued)
    let ?ss = "map (\<lambda>cv. setitem_rows (py_slice_from [0..<nrows df] (W - 1)) cv
                                (replicate (nrows df) None)) convolued"
    have "sequence_err ?ss = Inl e"
      using assms Inr \<open>np_ones W = Inr ones\<close> by (simp add: rolling_mean_df_def)
    then have "Inl e \<in> set ?ss" by (rule sequence_err_Inl)
    then obtain cv where "setitem_rows (py_slice_from [0..<nrows df] (W - 1)) cv
                                (replicate (nrows df) None) = Inl e"
      by auto
    then show ?thesis by (rule setitem_rows_Inl)
  qed
qed

lemma nan_by_window_Inl: "nan_by_window df W = Inl e \<Longrightarrow> e = ValueError"
  unfolding nan_by_window_def by (auto split: sum.splits dest: rolling_mean_df_Inl)

lemma nb_valid_windows_bad_mode:
  assumes "m \<noteq> None" "m \<noteq> Some ''pc''"
  shows "nb_valid_windows df W m = Inl ValueError"
proof (cases "nan_by_window df W")
  case (Inl e)
  then show ?thesis using nan_by_window_Inl[OF Inl] by (simp add: nb_valid_windows_def)
next
  case (Inr npf)
  then show ?thesis using assms by (simp add: nb_valid_windows_def)
qed

lemma rolling_mean_ts_nonpositive:
  "W < 0 \<Longrightarrow> rolling_mean_ts ts W = Inl ValueError"
  "rolling_mean_ts ts 0 = Inl ZeroDivisionError"
  by (simp_all add: rolling_mean_ts_def np_ones_def Let_def)

lemma windowed_negative:
  assumes "W < 0"
  shows "rolling_mean_df df W = Inl ValueError" "nan_by_window df W = Inl ValueError"
    "nb_valid_windows df W m = Inl ValueError"
proof -
  show r: "rolling_mean_df df W = Inl ValueError" for df
    using assms by (simp add: rolling_mean_df_def np_ones_def)
  show n: "nan_by_window df W = Inl ValueError" by (simp add: nan_by_window_def r)
  show "nb_valid_windows df W m = Inl ValueError" by (simp add: nb_valid_windows_def n)
qed

lemma windowed_zero:
  assumes "df \<noteq> []" "\<forall>c\<in>set df. c \<noteq> []"
  shows "rolling_mean_df df 0 = Inl ValueError" "nan_by_window df 0 = Inl ValueError"
    "nb_valid_windows df 0 m = Inl ValueError"
proof -
  have r: "rolling_mean_df d 0 = Inl ValueError" if h: "d \<noteq> []" "\<forall>c\<in>set d. c \<noteq> []" for d
  proof -
    obtain c cs where d: "d = c # cs" using h(1) by (cases d) auto
    then have "c \<noteq> []" using h(2) by simp
    then show ?thesis unfolding d
      by (simp add: rolling_mean_df_def np_ones_def frame_apply_def nrows_def convolve_valid_def)
  qed
  show "rolling_mean_df df 0 = Inl ValueError" using assms by (rule r)
  have "map (\<lambda>ts. as_float (isna ts)) df \<noteq> []"
    "\<forall>c\<in>set (map (\<lambda>ts. as_float (isna ts)) df). c \<noteq> []"
    using assms by (auto simp: as_float_def isna_def)
  then have "rolling_mean_df (map (\<lambda>ts. as_float (isna ts)) df) 0 = Inl ValueError" by (rule r)
  then show n: "nan_by_window df 0 = Inl ValueError" by (simp add: nan_by_window_def)
  show "nb_valid_windows df 0 m = Inl ValueError" by (simp add: nb_valid_windows_def n)
qed

text \<open>On a table without rows \<^verbatim>\<open>DataFrame.apply\<close> does not raise, whatever the filter,
  and the functions return tables without rows.\<close>

lemma map_empty_columns: "\<forall>c\<in>set df. c = [] \<Longrightarrow> map (\<lambda>c. []) df = df"
  by (induction df) auto

lemma rolling_mean_df_no_rows:
  assumes "\<forall>c\<in>set df. c = []" "0 \<le> W"
  shows "rolling_mean_df df W = Inr df"
proof -
  have n: "nrows df = 0" using assms(1) by (cases df) (auto simp: nrows_def)
  have ap: "frame_apply func df = Inr df" for func by (simp add: frame_apply_def n)
  have sl: "py_slice_from ([]::nat list) k = []" for k by (simp add: py_slice_from_def)
  have "map (\<lambda>cv. setitem_rows [] cv []) df = map (\<lambda>c. Inr []) df"
    by (rule map_cong[OF refl]) (use assms(1) in \<open>simp add: setitem_rows_def\<close>)
  then have "sequence_err (map (\<lambda>cv. setitem_rows [] cv []) df) = Inr (map (\<lambda>c. []) df)"
    by (simp only: sequence_err_Inr)
  then have "sequence_err (map (\<lambda>cv. setitem_rows [] cv []) df) = Inr df"
    using assms(1) by (simp only: map_empty_columns)
  then show ?thesis using assms(2) by (simp add: rolling_mean_df_def np_ones_def ap n sl)
qed

lemma nan_by_window_no_rows:
  assumes "\<forall>c\<in>set df. c = []" "0 \<le> W"
  shows "nan_by_window df W = Inr df"
proof -
  have e: "map (\<lambda>ts. as_float (isna ts)) df = df"
    using assms(1) by (induction df) (auto simp: as_float_def isna_def)
  have r: "rolling_mean_df df W = Inr df" using assms by (rule rolling_mean_df_no_rows)
  have "first_valid_index [] = None" "last_valid_index [] = None"
    by (simp_all add: first_valid_index_def last_valid_index_def)
  then have "span_restriction [] = []" by (simp add: span_restriction_None)
  then have m: "mask_tick [] W [] = []" by (simp add: mask_tick_def py_index_def)
  have "map (\<lambda>p. mask_tick (fst p) W (map (\<lambda>c. cell_fmul c (Some (real_of_int W))) (snd p))) (zip df df)
        = map (\<lambda>c. []) df"
    using assms(1) by (induction df) (auto simp: m)
  then show ?thesis using assms(1) by (simp add: nan_by_window_def e r map_empty_columns)
qed

lemma rolling_mean_df_too_long:
  assumes "df \<noteq> []" "\<forall>c\<in>set df. length c = N" "N < w"
  shows "rolling_mean_df df (int w) = (if N = 0 then Inr (map (\<lambda>c. []) df) else Inl ValueError)"
proof (cases "N = 0")
  case True
  then have e: "\<forall>c\<in>set df. c = []" using assms(2) by simp
  then have "rolling_mean_df df (int w) = Inr df" by (intro rolling_mean_df_no_rows) simp_all
  then show ?thesis using True e by (simp add: map_empty_columns)
next
  case False
  obtain c cs where df: "df = c # cs" using assms(1) by (cases df) auto
  have n: "nrows df = N" using assms(2) df by (simp add: nrows_def)
  have ones: "np_ones (int w) = Inr (replicate w (Some 1))" by (simp add: np_ones_def)
  have idx: "py_slice_from [0..<N] (int w - 1) = []" using assms(3) by (rule py_slice_from_empty)
  let ?f = "map (\<lambda>c. cell_fdiv c (Some (real_of_int (int w)))) (replicate w (Some 1))"
  have ap: "frame_apply func df = sequence_err (map func df)" for func
    using assms(1) n False by (intro frame_apply_rows) auto
  have lf: "length ?f = w" by simp
  have "\<exists>r. convolve_valid col ?f = Inr r \<and> r \<noteq> []" if "col \<in> set df" for col
  proof -
    have "length col = N" using that assms(2) by simp
    then have "col \<noteq> []" using False by auto
    moreover have "?f \<noteq> []" using assms(3) by auto
    ultimately show ?thesis using convolve_valid_cases[of col ?f] by auto
  qed
  then obtain g where g: "\<And>col. col \<in> set df \<Longrightarrow> convolve_valid col ?f = Inr (g col) \<and> g col \<noteq> []"
    by metis
  have "map (\<lambda>col. convolve_valid col ?f) df = map (\<lambda>col. Inr (g col)) df"
    by (rule map_cong[OF refl]) (use g in simp)
  then have conv: "sequence_err (map (\<lambda>col. convolve_valid col ?f) df) = Inr (map g df)"
    by (simp only: sequence_err_Inr)
  have "g c \<noteq> []" using g[of c] df by simp
  then have "setitem_rows [] (g c) (replicate N None) = Inl ValueError"
    by (simp add: setitem_rows_def)
  then have "sequence_err (map (\<lambda>cv. setitem_rows [] cv (replicate N None)) (map g df)) = Inl ValueError"
    unfolding df by simp
  then show ?thesis using False unfolding rolling_mean_df_def ones n idx ap
    by (simp only: sum.case conv simp_thms if_False)
qed

lemma nan_by_window_too_long:
  assumes "df \<noteq> []" "\<forall>c\<in>set df. length c = N" "N < w" "N \<noteq> 0"
  shows "nan_by_window df (int w) = Inl ValueError"
proof -
  have "map (\<lambda>ts. as_float (isna ts)) df \<noteq> []"
    "\<forall>c\<in>set (map (\<lambda>ts. as_float (isna ts)) df). length c = N"
    using assms(1,2) by (auto simp: as_float_def isna_def)
  then have "rolling_mean_df (map (\<lambda>ts. as_float (isna ts)) df) (int w) =
               (if N = 0 then Inr (map (\<lambda>c. []) (map (\<lambda>ts. as_float (isna ts)) df)) else Inl ValueError)"
    using assms(3) by (rule rolling_mean_df_too_long)
  then show ?thesis using assms(4) by (simp add: nan_by_window_def)
qed

text \<open>
  Claim C6, as amended. A window longer than the sequence does not give an empty result
  for a sequence. \<open>rolling_mean_ts\<close> fails with a ValueError: the convolution rejects an
  empty sequence, and for a sequence that is not empty it has \<open>w - N + 1\<close> entries, which
  do not fit the empty output. \<open>rolling_mean_df\<close>, on a table with at least one column,
  fails with a ValueError as well when the table has a row, for the same reason; on a
  table without row it returns the table without row.
\<close>

theorem rolling_mean_window_too_long:
  assumes "N < w"
  shows "(length ts = N \<longrightarrow> rolling_mean_ts ts (int w) = Inl ValueError)
       \<and> (df \<noteq> [] \<and> (\<forall>c\<in>set df. length c = N) \<longrightarrow>
            rolling_mean_df df (int w) = (if N = 0 then Inr (map (\<lambda>c. []) df) else Inl ValueError))"
  using assms rolling_mean_ts_too_long[of ts w] rolling_mean_df_too_long[of df N w] by blast

theorem rolling_mean_window_too_long_witness:
  "rolling_mean_ts [Some 1, None] 3 = Inl ValueError
   \<and> rolling_mean_df [[Some 1, None], [Some 2, Some 3]] 3 = Inl ValueError
   \<and> rolling_mean_ts [] 1 = Inl ValueError
   \<and> rolling_mean_df [[], []] 1 = Inr [[], []]"
proof -
  have h: "(2::nat) < 3" "(0::nat) < 1" by simp_all
  show ?thesis
    using rolling_mean_window_too_long[OF h(1), of "[Some 1, None]" "[[Some 1, None], [Some 2, Some 3]]"]
      rolling_mean_window_too_long[OF h(2), of "[]" "[[], []]"]
    by (simp add: numeral_2_eq_2)
qed

theorem rolling_mean_window_too_long_counterexample:
  "rolling_mean_ts [Some 1] 2 = Inl ValueError \<and> rolling_mean_ts [Some 1] 2 \<noteq> Inr []
   \<and> rolling_mean_df [[Some 1]] 2 = Inl ValueError"
  by code_simp

text \<open>
  Claim C9, as amended. \<open>nb_valid_windows\<close> with a selector that is neither \<^verbatim>\<open>None\<close>
  nor \<^verbatim>\<open>"pc"\<close> fails with a ValueError, whatever the table and the window length. With
  a negative window length every windowed function fails with a ValueError. With the
  window length 0, \<open>rolling_mean_ts\<close> fails with a ZeroDivisionError;
  \<open>rolling_mean_df\<close>, \<open>nan_by_window\<close> and \<open>nb_valid_windows\<close> fail with a ValueError on
  a table that has a column and a row, and on a table with columns and no row they do
  not fail: they return the table without row.
\<close>

theorem invalid_argument_errors:
  "(m \<noteq> None \<and> m \<noteq> Some ''pc'' \<longrightarrow> nb_valid_windows df W m = Inl ValueError)
   \<and> (W < 0 \<longrightarrow>
        rolling_mean_ts ts W = Inl ValueError
      \<and> rolling_mean_df df W = Inl ValueError
      \<and> nan_by_window df W = Inl ValueError
      \<and> nb_valid_windows df W m = Inl ValueError)
   \<and> rolling_mean_ts ts 0 = Inl ZeroDivisionError
   \<and> (df \<noteq> [] \<and> (\<forall>c\<in>set df. c \<noteq> []) \<longrightarrow>
        rolling_mean_df df 0 = Inl ValueError
      \<and> nan_by_window df 0 = Inl ValueError
      \<and> nb_valid_windows df 0 m = Inl ValueError)
   \<and> (df \<noteq> [] \<and> (\<forall>c\<in>set df. c = []) \<longrightarrow>
        rolling_mean_df df 0 = Inr df
      \<and> nan_by_window df 0 = Inr df
      \<and> nb_valid_windows df 0 None = Inr (Mask (map (\<lambda>c. []) df)))"
proof -
  have "nb_valid_windows df 0 None = Inr (Mask (map (\<lambda>c. []) df))" if "\<forall>c\<in>set df. c = []"
  proof -
    have "nan_by_window df 0 = Inr df" using that by (intro nan_by_window_no_rows) simp_all
    moreover have "map (map (\<lambda>c. c = Some 0)) df = map (\<lambda>c. []) df"
      by (rule map_cong[OF refl]) (use that in simp)
    ultimately show ?thesis by (simp add: nb_valid_windows_def)
  qed
  then have e: "df \<noteq> [] \<and> (\<forall>c\<in>set df. c = []) \<longrightarrow>
        rolling_mean_df df 0 = Inr df
      \<and> nan_by_window df 0 = Inr df
      \<and> nb_valid_windows df 0 None = Inr (Mask (map (\<lambda>c. []) df))"
    using rolling_mean_df_no_rows[of df 0] nan_by_window_no_rows[of df 0] by simp
  have s: "m \<noteq> None \<and> m \<noteq> Some ''pc'' \<longrightarrow> nb_valid_windows df W m = Inl ValueError"
    using nb_valid_windows_bad_mode[of m df W] by simp
  have n: "W < 0 \<longrightarrow>
        rolling_mean_ts ts W = Inl ValueError
      \<and> rolling_mean_df df W = Inl ValueError
      \<and> nan_by_window df W = Inl ValueError
      \<and> nb_valid_windows df W m = Inl ValueError"
    using rolling_mean_ts_nonpositive(1)[of W ts] windowed_negative(1)[of W df]
      windowed_negative(2)[of W df] windowed_negative(3)[of W df m] by simp
  have z: "df \<noteq> [] \<and> (\<forall>c\<in>set df. c \<noteq> []) \<longrightarrow>
        rolling_mean_df df 0 = Inl ValueError
      \<and> nan_by_window df 0 = Inl ValueError
      \<and> nb_valid_windows df 0 m = Inl ValueError"
    using windowed_zero(1)[of df] windowed_zero(2)[of df] windowed_zero(3)[of df m] by simp
  show ?thesis using s n rolling_mean_ts_nonpositive(2)[of ts] z e by blast
qed

theorem invalid_argument_errors_witness:
  "nb_valid_windows [[Some 1, None]] 1 (Some ''mean'') = Inl ValueError
   \<and> rolling_mean_ts [Some 1, None] (- 1) = Inl ValueError
   \<and> rolling_mean_df [[Some 1, None]] (- 1) = Inl ValueError
   \<and> nan_by_window [[Some 1, None]] (- 1) = Inl ValueError
   \<and> nb_valid_windows [[Some 1, None]] (- 1) None = Inl ValueError
   \<and> rolling_mean_ts [Some 1, None] 0 = Inl ZeroDivisionError
   \<and> rolling_mean_df [[Some 1, None]] 0 = Inl ValueError
   \<and> nan_by_window [[Some 1, None]] 0 = Inl ValueError
   \<and> nb_valid_windows [[Some 1, None]] 0 (Some ''pc'') = Inl ValueError
   \<and> rolling_mean_df [[]] 0 = Inr [[]]
   \<and> nan_by_window [[]] 0 = Inr [[]]
   \<and> nb_valid_windows [[]] 0 None = Inr (Mask [[]])"
  using invalid_argument_errors[of "Some ''mean''" "[[Some 1, None]]" 1 "[Some 1, None]"]
    invalid_argument_errors[of None "[[Some 1, None]]" "- 1" "[Some 1, None]"]
    invalid_argument_errors[of "Some ''pc''" "[[Some 1, None]]" 0 "[Some 1, None]"]
    invalid_argument_errors[of None "[[]]" 0 "[]"]
  by simp

theorem invalid_argument_errors_counterexample:
  "rolling_mean_ts [Some 1] 0 = Inl ZeroDivisionError \<and> rolling_mean_ts [Some 1] 0 \<noteq> Inl ValueError
   \<and> rolling_mean_df [[]] 0 = Inr [[]]
   \<and> nan_by_window [[]] 0 = Inr [[]]
   \<and> nb_valid_windows [[]] 0 None = Inr (Mask [[]])"
  by code_simp
section \<open>The windowed count of missing values\<close>

text \<open>
  For a window length \<open>1 \<le> w \<le> N\<close>, \<open>nan_by_window\<close> holds the rounded count of
  the window that ends at row \<open>j\<close> exactly at the rows
  \<open>counted_from \<le> j < counted_until\<close> of a column: the label slices that mask the column include both of their ends, so
  the \<open>w\<close>-th row of the span is masked, and the last observed row is masked when rows
  follow it. A column without observed value is treated as if every row were observed.
\<close>

lemma indicator_cells:
  "as_float (isna xs) = map (\<lambda>c. if c = None then Some 1 else Some 0) xs"
  by (simp add: as_float_def isna_def)

lemma indicator_window:
  "take w (drop k (as_float (isna ts))) = as_float (isna (take w (drop k ts)))"
  by (simp add: as_float_def isna_def take_map drop_map)

lemma rounded_count_defined: "rounded_count ts j w \<noteq> None"
proof -
  have "None \<notin> set (take w (drop (j + 1 - w) (as_float (isna ts))))"
    unfolding indicator_window by (auto simp: indicator_cells)
  then have "rounded_window_sum (as_float (isna ts)) (j + 1 - w) w (fl (1 / real w)) \<noteq> None"
    by (simp only: rounded_window_sum_missing simp_thms)
  then show ?thesis by (auto simp: rounded_count_def cell_fmul_def)
qed

lemma fl_zero: "fl 0 = 0"
  by (simp add: fl_def)

lemma rounded_count_zero:
  assumes "missing_count (take w (drop (j + 1 - w) ts)) = 0"
  shows "rounded_count ts j w = Some 0"
proof -
  have z: "foldl (\<lambda>acc c. cell_fadd acc (cell_fmul c (Some r))) (Some 0) (as_float (isna xs)) = Some 0"
    if "missing_count xs = 0" for xs r
    using that
  proof (induction xs)
    case Nil
    show ?case by (simp add: indicator_cells)
  next
    case (Cons x xs)
    then have x: "x \<noteq> None" and m: "missing_count xs = 0"
      by (auto simp: missing_count_def split: if_splits)
    have "cell_fadd (Some 0) (cell_fmul (Some 0) (Some r)) = Some 0"
      by (simp add: cell_fadd_def cell_fmul_def fl_zero)
    moreover obtain v where "x = Some v" using x by auto
    ultimately show ?case using Cons.IH[OF m] by (simp add: indicator_cells)
  qed
  have "rounded_window_sum (as_float (isna ts)) (j + 1 - w) w (fl (1 / real w)) = Some 0"
    unfolding rounded_window_sum_def indicator_window using assms by (rule z)
  then show ?thesis by (simp add: rounded_count_def cell_fmul_def fl_zero)
qed

lemma loc_set_nan_nth:
  "j < length col \<Longrightarrow> loc_set_nan lo hi col ! j = (if lo \<le> j \<and> j \<le> hi then None else col ! j)"
  by (simp add: loc_set_nan_def)

lemma length_loc_set_nan: "length (loc_set_nan lo hi col) = length col"
  by (simp add: loc_set_nan_def)

lemma span_labels:
  "map fst (span_restriction ts) =
     (case first_valid_index ts of None \<Rightarrow> [0..<length ts]
      | Some a \<Rightarrow> (case last_valid_index ts of None \<Rightarrow> [] | Some b \<Rightarrow> [a..<Suc b]))"
proof (cases ts rule: valid_indices_cases)
  case none
  then show ?thesis by (simp add: span_restriction_None comp_def)
next
  case (some a b)
  then show ?thesis by (simp add: span_restriction_Some comp_def del: upt_Suc)
qed

lemma py_index_upt:
  "py_index [lo..<hi] (int k) = (if lo + k < hi then Inr (lo + k) else Inl IndexError)"
  by (auto simp: py_index_def Let_def)

lemma py_index_upt_last:
  "lo < hi \<Longrightarrow> py_index [lo..<hi] (- 1) = Inr (hi - 1)"
proof -
  assume h: "lo < hi"
  then have "nat (int (hi - lo) - 1) = hi - lo - 1" by simp
  then show ?thesis using h by (auto simp: py_index_def Let_def)
qed

lemma mask_tick_closed:
  assumes "1 \<le> w" "length ts = N" "length out = N" "1 \<le> N"
  shows "mask_tick ts (int w) out =
           map (\<lambda>j. if counted_from ts w \<le> j \<and> j < counted_until ts then out ! j else None) [0..<N]"
proof -
  define k where "k = w - 1"
  have wk: "int w - 1 = int k" "w = Suc k" using assms(1) by (simp_all add: k_def)
  have o0: "py_index [0..<length out] 0 = Inr 0"
    using assms(3,4) py_index_upt[of 0 "length out" 0] by simp
  have o1: "py_index [0..<length out] (- 1) = Inr (N - 1)"
    using assms(3,4) py_index_upt_last[of 0 "length out"] by simp
  show ?thesis
  proof (cases ts rule: valid_indices_cases)
    case none
    then have idx: "map fst (span_restriction ts) = [0..<N]" using assms(2) by (simp add: span_labels)
    have cf: "counted_from ts w = w" "counted_until ts = N"
      using none assms(2) by (simp_all add: counted_from_def counted_until_def)
    have i1: "py_index [0..<N] (- 1) = Inr (N - 1)" using assms(4) py_index_upt_last[of 0 N] by simp
    show ?thesis
    proof (cases "k < N")
      case True
      then have i0: "py_index [0..<N] (int k) = Inr k" using py_index_upt[of 0 N k] by simp
      have "mask_tick ts (int w) out = loc_set_nan 0 k out"
        unfolding mask_tick_def Let_def idx wk(1) i0 i1 o0 o1 by simp
      also have "\<dots> = map (\<lambda>j. if w \<le> j \<and> j < N then out ! j else None) [0..<N]"
        by (rule nth_equalityI) (use assms(3) wk(2) in \<open>auto simp: loc_set_nan_nth length_loc_set_nan\<close>)
      finally show ?thesis unfolding cf .
    next
      case False
      then have i0: "py_index [0..<N] (int k) = Inl IndexError" using py_index_upt[of 0 N k] by simp
      have "mask_tick ts (int w) out = replicate N None"
        unfolding mask_tick_def Let_def idx wk(1) i0 using assms(3) by simp
      also have "\<dots> = map (\<lambda>j. if w \<le> j \<and> j < N then out ! j else None) [0..<N]"
        by (rule nth_equalityI) (use False wk(2) in auto)
      finally show ?thesis unfolding cf .
    qed
  next
    case (some a b)
    then have idx: "map fst (span_restriction ts) = [a..<Suc b]" by (simp add: span_labels del: upt_Suc)
    have cf: "counted_from ts w = a + w" "counted_until ts = (if Suc b = N then N else b)"
      using some assms(2) by (simp_all add: counted_from_def counted_until_def)
    have bN: "b < N" using some assms(2) by simp
    have i1: "py_index [a..<Suc b] (- 1) = Inr b" using some(3) py_index_upt_last[of a "Suc b"] by simp
    show ?thesis
    proof (cases "a + k < Suc b")
      case True
      then have i0: "py_index [a..<Suc b] (int k) = Inr (a + k)" using py_index_upt[of a "Suc b" k] by simp
      have m: "mask_tick ts (int w) out =
                (if b < N - 1 then loc_set_nan b (N - 1) (loc_set_nan 0 (a + k) out) else loc_set_nan 0 (a + k) out)"
        unfolding mask_tick_def Let_def idx wk(1) i0 i1 o0 o1 by simp
      show ?thesis
      proof (cases "b < N - 1")
        case True
        then have "Suc b \<noteq> N" by arith
        then have cu: "counted_until ts = b" using cf(2) by simp
        have "loc_set_nan b (N - 1) (loc_set_nan 0 (a + k) out) =
                map (\<lambda>j. if a + w \<le> j \<and> j < b then out ! j else None) [0..<N]"
        proof (rule nth_equalityI)
          show "length (loc_set_nan b (N - 1) (loc_set_nan 0 (a + k) out)) =
                length (map (\<lambda>j. if a + w \<le> j \<and> j < b then out ! j else None) [0..<N])"
            using assms(3) by (simp add: length_loc_set_nan)
        next
          fix j assume "j < length (loc_set_nan b (N - 1) (loc_set_nan 0 (a + k) out))"
          then have j: "j < N" using assms(3) by (simp add: length_loc_set_nan)
          then have "loc_set_nan b (N - 1) (loc_set_nan 0 (a + k) out) ! j =
                 (if b \<le> j \<and> j \<le> N - 1 then None else if 0 \<le> j \<and> j \<le> a + k then None else out ! j)"
            using assms(3) by (simp add: loc_set_nan_nth length_loc_set_nan)
          also have "\<dots> = (if a + w \<le> j \<and> j < b then out ! j else None)"
            using j wk(2) by auto
          finally show "loc_set_nan b (N - 1) (loc_set_nan 0 (a + k) out) ! j =
                map (\<lambda>j. if a + w \<le> j \<and> j < b then out ! j else None) [0..<N] ! j"
            using j by simp
        qed
        then show ?thesis unfolding m cf(1) cu using True by simp
      next
        case False
        then have "Suc b = N" using bN by arith
        then have cu: "counted_until ts = N" using cf(2) by simp
        have "loc_set_nan 0 (a + k) out =
                map (\<lambda>j. if a + w \<le> j \<and> j < N then out ! j else None) [0..<N]"
        proof (rule nth_equalityI)
          show "length (loc_set_nan 0 (a + k) out) =
                length (map (\<lambda>j. if a + w \<le> j \<and> j < N then out ! j else None) [0..<N])"
            using assms(3) by (simp add: length_loc_set_nan)
        next
          fix j assume "j < length (loc_set_nan 0 (a + k) out)"
          then have j: "j < N" using assms(3) by (simp add: length_loc_set_nan)
          then have "loc_set_nan 0 (a + k) out ! j = (if 0 \<le> j \<and> j \<le> a + k then None else out ! j)"
            using assms(3) by (simp add: loc_set_nan_nth)
          also have "\<dots> = (if a + w \<le> j \<and> j < N then out ! j else None)"
            using j wk(2) by auto
          finally show "loc_set_nan 0 (a + k) out ! j =
                map (\<lambda>j. if a + w \<le> j \<and> j < N then out ! j else None) [0..<N] ! j"
            using j by simp
        qed
        then show ?thesis unfolding m cf(1) cu using False by simp
      qed
    next
      case False
      then have i0: "py_index [a..<Suc b] (int k) = Inl IndexError" using py_index_upt[of a "Suc b" k] by simp
      have "mask_tick ts (int w) out = replicate N None"
        unfolding mask_tick_def Let_def idx wk(1) i0 using assms(3) by simp
      also have "\<dots> = map (\<lambda>j. if a + w \<le> j \<and> j < (if Suc b = N then N else b) then out ! j else None) [0..<N]"
        by (rule nth_equalityI) (use False wk(2) bN in auto)
      finally show ?thesis unfolding cf .
    qed
  qed
qed

lemma nan_by_window_closed:
  assumes "1 \<le> w" "w \<le> N" "\<forall>c\<in>set df. length c = N"
  shows "nan_by_window df (int w) =
           Inr (map (\<lambda>ts. map (\<lambda>j. if counted_from ts w \<le> j \<and> j < counted_until ts
                                    then rounded_count ts j w else None) [0..<N]) df)"
proof -
  let ?ind = "map (\<lambda>ts. as_float (isna ts)) df"
  have li: "\<forall>c\<in>set ?ind. length c = N" using assms(3) by (auto simp: as_float_def isna_def)
  have rm: "rolling_mean_df ?ind (int w) =
      Inr (map (\<lambda>c. replicate (w - 1) None
                        @ map (\<lambda>j. rounded_window_sum c j w (fl (1 / real w))) [0..<N - w + 1]) ?ind)"
    using assms(1,2) li by (rule rolling_mean_df_rounded)
  have col: "mask_tick ts (int w)
               (map (\<lambda>c. cell_fmul c (Some (real_of_int (int w))))
                  (replicate (w - 1) None @ map (\<lambda>j. rounded_window_sum (as_float (isna ts)) j w (fl (1 / real w))) [0..<N - w + 1]))
           = map (\<lambda>j. if counted_from ts w \<le> j \<and> j < counted_until ts
                                    then rounded_count ts j w else None) [0..<N]"
    if "ts \<in> set df" for ts
  proof -
    let ?out = "map (\<lambda>c. cell_fmul c (Some (real_of_int (int w))))
                  (replicate (w - 1) None @ map (\<lambda>j. rounded_window_sum (as_float (isna ts)) j w (fl (1 / real w))) [0..<N - w + 1])"
    have lt: "length ts = N" using that assms(3) by simp
    have lo: "length ?out = N" using assms(1,2) by simp
    have N1: "1 \<le> N" using assms(1,2) by simp
    have nth: "?out ! j = rounded_count ts j w" if "w \<le> j" "j < N" for j
    proof -
      have "j - (w - 1) < N - w + 1" using that assms(1) by arith
      moreover have "j - (w - 1) = j + 1 - w" using that assms(1) by arith
      moreover have "\<not> j < w - 1" using that by arith
      ultimately show ?thesis using that lo
        by (simp add: nth_append rounded_count_def del: upt_Suc)
    qed
    have fw: "w \<le> counted_from ts w" by (simp add: counted_from_def split: option.splits)
    have "mask_tick ts (int w) ?out =
           map (\<lambda>j. if counted_from ts w \<le> j \<and> j < counted_until ts then ?out ! j else None) [0..<N]"
      using assms(1) lt lo N1 by (rule mask_tick_closed)
    also have "\<dots> = map (\<lambda>j. if counted_from ts w \<le> j \<and> j < counted_until ts
                                    then rounded_count ts j w else None) [0..<N]"
      by (rule map_cong[OF refl]) (use nth fw in auto)
    finally show ?thesis .
  qed
  have "map (\<lambda>p. mask_tick (fst p) (int w) (map (\<lambda>c. cell_fmul c (Some (real_of_int (int w)))) (snd p)))
          (zip df (map (\<lambda>c. replicate (w - 1) None @ map (\<lambda>j. rounded_window_sum c j w (fl (1 / real w))) [0..<N - w + 1]) ?ind))
      = map (\<lambda>ts. map (\<lambda>j. if counted_from ts w \<le> j \<and> j < counted_until ts
                                    then rounded_count ts j w else None) [0..<N]) df"
  proof (rule nth_equalityI)
    show "length (map (\<lambda>p. mask_tick (fst p) (int w) (map (\<lambda>c. cell_fmul c (Some (real_of_int (int w)))) (snd p)))
          (zip df (map (\<lambda>c. replicate (w - 1) None @ map (\<lambda>j. rounded_window_sum c j w (fl (1 / real w))) [0..<N - w + 1]) ?ind)))
      = length (map (\<lambda>ts. map (\<lambda>j. if counted_from ts w \<le> j \<and> j < counted_until ts
                                    then rounded_count ts j w else None) [0..<N]) df)"
      by simp
  next
    fix i assume "i < length (map (\<lambda>p. mask_tick (fst p) (int w) (map (\<lambda>c. cell_fmul c (Some (real_of_int (int w)))) (snd p)))
          (zip df (map (\<lambda>c. replicate (w - 1) None @ map (\<lambda>j. rounded_window_sum c j w (fl (1 / real w))) [0..<N - w + 1]) ?ind)))"
    then have i: "i < length df" by simp
    then have "df ! i \<in> set df" by simp
    from col[OF this] i
    show "map (\<lambda>p. mask_tick (fst p) (int w) (map (\<lambda>c. cell_fmul c (Some (real_of_int (int w)))) (snd p)))
          (zip df (map (\<lambda>c. replicate (w - 1) None @ map (\<lambda>j. rounded_window_sum c j w (fl (1 / real w))) [0..<N - w + 1]) ?ind)) ! i
      = map (\<lambda>ts. map (\<lambda>j. if counted_from ts w \<le> j \<and> j < counted_until ts
                                    then rounded_count ts j w else None) [0..<N]) df ! i"
      by (simp del: upt_Suc)
  qed
  then show ?thesis unfolding nan_by_window_def rm by (simp only: sum.case)
qed

text \<open>On a column with an observed value the cells that \<open>nan_by_window\<close> leaves
  without value are those of the specification at every row but two: the \<open>w\<close>-th row
  of the span, and its last row when rows follow it. At the other rows a count of 0 is
  exact; a positive count is the rounded one.\<close>

lemma nan_by_window_off_edges:
  assumes "first_valid_index ts = Some a" "last_valid_index ts = Some b" "j < length ts"
    and "j + 1 \<noteq> a + w" "j \<noteq> b \<or> Suc b = length ts"
  shows "((if counted_from ts w \<le> j \<and> j < counted_until ts then rounded_count ts j w else None) = None)
           = (window_counts_spec ts w ! j = None)"
    and "window_counts_spec ts w ! j = Some 0 \<Longrightarrow>
           (if counted_from ts w \<le> j \<and> j < counted_until ts then rounded_count ts j w else None) = Some 0"
proof -
  have b: "a \<le> b" "b < length ts"
    using assms(1,2) by (cases ts rule: valid_indices_cases; simp)+
  have "length (observed_span ts) = Suc b - a"
    unfolding observed_span_Some[OF assms(1,2)] by (simp del: upt_Suc)
  then have sp: "a + length (observed_span ts) = Suc b" using b(1) by arith
  have cf: "counted_from ts w = a + w" "counted_until ts = (if Suc b = length ts then length ts else b)"
    using assms(1,2) by (simp_all add: counted_from_def counted_until_def)
  have s: "window_counts_spec ts w ! j = (if a + w \<le> j + 1 \<and> j < Suc b then window_count ts j w else None)"
    unfolding window_counts_spec_def Let_def leading_missing[OF assms(1)] sp using assms(3) by simp
  have c: "(counted_from ts w \<le> j \<and> j < counted_until ts) = (a + w \<le> j + 1 \<and> j < Suc b)"
    unfolding cf using assms(3,4,5) by auto
  show "((if counted_from ts w \<le> j \<and> j < counted_until ts then rounded_count ts j w else None) = None)
           = (window_counts_spec ts w ! j = None)"
    unfolding s c by (simp add: rounded_count_defined window_count_def)
  assume "window_counts_spec ts w ! j = Some 0"
  then have "a + w \<le> j + 1 \<and> j < Suc b" "missing_count (take w (drop (j + 1 - w) ts)) = 0"
    unfolding s by (auto simp: window_count_def split: if_splits)
  then show "(if counted_from ts w \<le> j \<and> j < counted_until ts then rounded_count ts j w else None) = Some 0"
    unfolding c by (simp add: rounded_count_zero)
qed

lemma short_span_all_missing:
  assumes "first_valid_index ts = Some a" "length (observed_span ts) < w"
  shows "map (\<lambda>j. if counted_from ts w \<le> j \<and> j < counted_until ts
                   then rounded_count ts j w else None) [0..<length ts]
         = replicate (length ts) None"
proof -
  obtain b where b: "last_valid_index ts = Some b" "a \<le> b" "b < length ts"
    using assms(1) by (cases ts rule: valid_indices_cases) auto
  have "length (observed_span ts) = Suc b - a"
    unfolding observed_span_Some[OF assms(1) b(1)] by (simp del: upt_Suc)
  then have "Suc b \<le> a + w" using assms(2) b(2) by arith
  then have "counted_until ts \<le> counted_from ts w"
    using assms(1) b by (auto simp: counted_from_def counted_until_def)
  then show ?thesis by (intro nth_equalityI) auto
qed

section \<open>Runs of missing values\<close>

text \<open>
  Grouping the missing cells of the span by the number of non-missing cells before them
  gives the maximal runs of missing cells, and \<open>find_contiguous_nan\<close> writes the length
  of each run at its first row. For a column with an observed value the span is the
  ObservedSpan; for a column without one it is the whole column.
\<close>

lemma sel_keyed:
  "map (\<lambda>q. (fst (fst q), snd q))
     (filter (\<lambda>q. snd (fst q) = None)
        (zip (zip [p..<p + length cs] cs) (cumsum_from acc (map Not (map (\<lambda>c. c = None) cs)))))
   = keyed_gaps p acc cs"
proof (induction cs arbitrary: p acc)
  case Nil
  show ?case by simp
next
  case (Cons c cs)
  have u: "[p..<p + length (c # cs)] = p # [Suc p..<Suc p + length cs]" by (simp add: upt_rec)
  show ?case
  proof (cases c)
    case None
    then show ?thesis unfolding u using Cons.IH[of "Suc p" acc] by simp
  next
    case (Some x)
    then show ?thesis unfolding u using Cons.IH[of "Suc p" "Suc acc"] by simp
  qed
qed

lemma keyed_gaps_keys: "q \<in> set (keyed_gaps p acc cs) \<Longrightarrow> acc \<le> snd q"
proof (induction p acc cs rule: keyed_gaps.induct)
  case (1 p acc) then show ?case by simp
next
  case (2 p acc x cs) then show ?case by fastforce
next
  case (3 p acc cs) then show ?case by auto
qed

lemma keyed_gaps_nones:
  "\<forall>c\<in>set ns. c = None \<Longrightarrow>
   keyed_gaps p acc (ns @ cs) = map (\<lambda>i. (p + i, acc)) [0..<length ns] @ keyed_gaps (p + length ns) acc cs"
proof (induction ns arbitrary: p)
  case Nil
  show ?case by simp
next
  case (Cons n ns)
  then have n: "n = None" by simp
  have "[0..<Suc (length ns)] = 0 # map Suc [0..<length ns]"
    by (simp add: upt_conv_Cons map_Suc_upt del: upt_Suc)
  then have "map (\<lambda>i. (p + i, acc)) [0..<length (n # ns)] =
        (p, acc) # map (\<lambda>i. (Suc p + i, acc)) [0..<length ns]"
    by (simp add: comp_def del: upt_Suc)
  then show ?case using Cons n by simp
qed

lemma remdups_same_key:
  "g \<noteq> [] \<Longrightarrow> \<forall>q\<in>set g. q = k \<Longrightarrow> k \<notin> set ks \<Longrightarrow> remdups (g @ ks) = k # remdups ks"
proof (induction g)
  case Nil then show ?case by simp
next
  case (Cons a g)
  show ?case
  proof (cases "g = []")
    case True
    then show ?thesis using Cons.prems by simp
  next
    case False
    then have "remdups (g @ ks) = k # remdups ks" using Cons by simp
    moreover have "a \<in> set (g @ ks)" using False Cons.prems by (cases g) auto
    ultimately show ?thesis by simp
  qed
qed

lemma groupby_first_group:
  assumes "g \<noteq> []" "\<forall>q\<in>set g. snd q = k" "\<forall>q\<in>set vs. k < snd q"
  shows "groupby_first_size (g @ vs) = (fst (hd g), length g) # groupby_first_size vs"
proof -
  have kn: "k \<notin> set (map snd vs)" using assms(3) by auto
  have "remdups (map snd (g @ vs)) = k # remdups (map snd vs)"
    using assms(1,2) kn remdups_same_key[of "map snd g" k "map snd vs"] by simp
  moreover have "\<forall>x\<in>set (remdups (map snd vs)). k \<le> x" using assms(3) by auto
  ultimately have keys: "sort (remdups (map snd (g @ vs))) = k # sort (remdups (map snd vs))"
    by (simp add: insort_is_Cons)
  have fk: "filter (\<lambda>p. snd p = k) (g @ vs) = g"
  proof -
    have "filter (\<lambda>p. snd p = k) vs = []" using assms(3) by (auto simp: filter_empty_conv)
    moreover have "filter (\<lambda>p. snd p = k) g = g" using assms(2) by (simp add: filter_id_conv)
    ultimately show ?thesis by simp
  qed
  have fo: "filter (\<lambda>p. snd p = k') (g @ vs) = filter (\<lambda>p. snd p = k') vs"
    if "k' \<in> set (sort (remdups (map snd vs)))" for k'
  proof -
    have "k' \<noteq> k" using that kn by auto
    then have "filter (\<lambda>p. snd p = k') g = []" using assms(2) by (auto simp: filter_empty_conv)
    then show ?thesis by simp
  qed
  have "map (\<lambda>k'. (fst (hd (filter (\<lambda>p. snd p = k') (g @ vs))), length (filter (\<lambda>p. snd p = k') (g @ vs))))
          (sort (remdups (map snd vs)))
      = map (\<lambda>k'. (fst (hd (filter (\<lambda>p. snd p = k') vs)), length (filter (\<lambda>p. snd p = k') vs)))
          (sort (remdups (map snd vs)))"
    by (rule map_cong[OF refl]) (simp only: fo)
  then show ?thesis unfolding groupby_first_size_def keys list.map fk by (simp only:)
qed

lemma groupby_keyed_gaps: "groupby_first_size (keyed_gaps p acc cs) = gap_runs p cs"
proof (induction p cs arbitrary: acc rule: gap_runs.induct)
  case (1 p)
  show ?case by (simp add: groupby_first_size_def)
next
  case (2 p x cs)
  then show ?case by simp
next
  case (3 p cs)
  let ?ns = "takeWhile (\<lambda>c. c = None) cs"
  let ?rest = "dropWhile (\<lambda>c. c = None) cs"
  have cs: "cs = ?ns @ ?rest" by simp
  have nn: "\<forall>c\<in>set ?ns. c = None" by (auto dest: set_takeWhileD)
  have "keyed_gaps (Suc p) acc cs = map (\<lambda>i. (Suc p + i, acc)) [0..<length ?ns]
           @ keyed_gaps (Suc p + length ?ns) acc ?rest"
    using keyed_gaps_nones[OF nn, of "Suc p" acc ?rest] by simp
  then have split: "keyed_gaps p acc (None # cs) =
      ((p, acc) # map (\<lambda>i. (Suc p + i, acc)) [0..<length ?ns]) @ keyed_gaps (Suc p + length ?ns) acc ?rest"
    by simp
  have gt: "\<forall>q\<in>set (keyed_gaps (Suc p + length ?ns) acc ?rest). acc < snd q"
  proof (cases ?rest)
    case Nil
    show ?thesis unfolding Nil by simp
  next
    case (Cons r rs)
    then have "r \<noteq> None" using hd_dropWhile[of "\<lambda>c. c = None" cs] by (metis list.sel(1) list.distinct(1))
    then obtain x where "r = Some x" by auto
    then have "keyed_gaps (Suc p + length ?ns) acc ?rest = keyed_gaps (Suc (Suc p + length ?ns)) (Suc acc) rs"
      using Cons by simp
    then show ?thesis using keyed_gaps_keys[of _ "Suc (Suc p + length ?ns)" "Suc acc" rs] by fastforce
  qed
  have "groupby_first_size (keyed_gaps p acc (None # cs)) =
      (p, Suc (length ?ns)) # groupby_first_size (keyed_gaps (Suc p + length ?ns) acc ?rest)"
    unfolding split by (subst groupby_first_group[where k = acc]) (use gt in auto)
  then show ?case using "3.IH"[of acc] by simp
qed

lemma scatter_simps:
  "scatter [] out = out"
  "scatter (r # rs) out = scatter rs (out[fst r := Some (real (snd r))])"
  by (simp_all add: scatter_def)

lemma run_starts_prev: "prev \<noteq> None \<Longrightarrow> prev' \<noteq> None \<Longrightarrow> run_starts prev cs = run_starts prev' cs"
  by (cases cs) auto

lemma run_starts_head: "cs = [] \<or> hd cs \<noteq> None \<Longrightarrow> run_starts prev cs = run_starts prev' cs"
  by (cases cs) auto

lemma run_starts_nones:
  "\<forall>c\<in>set ns. c = None \<Longrightarrow> run_starts None (ns @ cs) = replicate (length ns) None @ run_starts None cs"
  by (induction ns) auto

lemma length_run_starts: "length (run_starts prev cs) = length cs"
  by (induction cs arbitrary: prev) auto

lemma scatter_gap_runs:
  "length pre = p \<Longrightarrow>
   scatter (gap_runs p cs) (pre @ replicate (length cs) None @ post) = pre @ run_starts (Some 0) cs @ post"
proof (induction p cs arbitrary: pre rule: gap_runs.induct)
  case (1 p)
  show ?case by (simp add: scatter_simps)
next
  case (2 p x cs)
  have "scatter (gap_runs (Suc p) cs) ((pre @ [None]) @ replicate (length cs) None @ post)
      = (pre @ [None]) @ run_starts (Some 0) cs @ post"
    using "2.prems" by (intro "2.IH") simp
  moreover have "run_starts (Some x) cs = run_starts (Some 0) cs" by (rule run_starts_prev) simp_all
  ultimately show ?case by simp
next
  case (3 p cs)
  let ?ns = "takeWhile (\<lambda>c. c = None) cs"
  let ?rest = "dropWhile (\<lambda>c. c = None) cs"
  let ?n = "length ?ns"
  have cs: "?ns @ ?rest = cs" by simp
  have len: "length cs = ?n + length ?rest" by (metis cs length_append)
  have nn: "\<forall>c\<in>set ?ns. c = None" by (auto dest: set_takeWhileD)
  have hd: "?rest = [] \<or> hd ?rest \<noteq> None" using hd_dropWhile[of "\<lambda>c. c = None" cs] by blast
  let ?pre' = "pre @ Some (real (Suc ?n)) # replicate ?n None"
  have upd: "(pre @ replicate (length (None # cs)) None @ post)[p := Some (real (Suc ?n))]
      = ?pre' @ replicate (length ?rest) None @ post"
    using "3.prems" by (simp add: len list_update_append replicate_add)
  have "scatter (gap_runs (Suc p + ?n) ?rest) (?pre' @ replicate (length ?rest) None @ post)
      = ?pre' @ run_starts (Some 0) ?rest @ post"
    using "3.prems" by (intro "3.IH") simp
  then have "scatter (gap_runs p (None # cs)) (pre @ replicate (length (None # cs)) None @ post)
      = ?pre' @ run_starts (Some 0) ?rest @ post"
    by (simp only: gap_runs.simps scatter_simps fst_conv snd_conv upd)
  moreover have "run_starts None cs = replicate ?n None @ run_starts (Some 0) ?rest"
  proof -
    have "run_starts None (?ns @ ?rest) = replicate ?n None @ run_starts None ?rest"
      using nn by (rule run_starts_nones)
    moreover have "run_starts None ?rest = run_starts (Some 0) ?rest" using hd by (rule run_starts_head)
    ultimately show ?thesis by simp
  qed
  ultimately show ?case by simp
qed

lemma run_starts_nth:
  "i < length cs \<Longrightarrow>
   run_starts prev cs ! i =
     (if cs ! i = None \<and> (if i = 0 then prev else cs ! (i - 1)) \<noteq> None
      then Some (real (length (takeWhile (\<lambda>c. c = None) (drop i cs)))) else None)"
proof (induction cs arbitrary: prev i)
  case Nil
  then show ?case by simp
next
  case (Cons c cs)
  show ?case
  proof (cases i)
    case 0
    then show ?thesis by simp
  next
    case (Suc k)
    then have "k < length cs" using Cons.prems by simp
    from Cons.IH[OF this, of c] show ?thesis using Suc by (cases k) simp_all
  qed
qed

lemma filter_takeWhile_same: "filter P (takeWhile P xs) = takeWhile P xs"
  by (induction xs) auto

lemma missing_count_split:
  "missing_count cs = length (takeWhile (\<lambda>c. c = None) cs) + missing_count (dropWhile (\<lambda>c. c = None) cs)"
proof -
  let ?ns = "takeWhile (\<lambda>c. c = None) cs"
  let ?rest = "dropWhile (\<lambda>c. c = None) cs"
  have "missing_count cs = missing_count (?ns @ ?rest)" by simp
  also have "\<dots> = missing_count ?ns + missing_count ?rest"
    by (simp only: missing_count_def filter_append length_append)
  also have "missing_count ?ns = length ?ns"
    unfolding missing_count_def by (simp only: filter_takeWhile_same)
  finally show ?thesis .
qed

lemma gap_runs_total: "sum_list (map snd (gap_runs p cs)) = missing_count cs"
proof (induction p cs rule: gap_runs.induct)
  case (1 p)
  show ?case by (simp add: missing_count_def)
next
  case (2 p x cs)
  then show ?case by (simp add: missing_count_def)
next
  case (3 p cs)
  have "missing_count (None # cs) = Suc (missing_count cs)" by (simp add: missing_count_def)
  then show ?case using 3 missing_count_split[of cs] by simp
qed

lemma recorded_total_append: "recorded_total (xs @ ys) = recorded_total xs + recorded_total ys"
  by (simp add: recorded_total_def)

lemma recorded_total_nones: "recorded_total (replicate n None) = 0"
  by (induction n) (simp_all add: recorded_total_def)

lemma recorded_total_run_starts:
  fixes p :: nat
  shows "recorded_total (run_starts (Some 0) cs) = real (missing_count cs)"
proof (induction p cs rule: gap_runs.induct)
  case (1 p)
  show ?case by (simp add: recorded_total_def missing_count_def)
next
  case (2 p x cs)
  have "run_starts (Some x) cs = run_starts (Some 0) cs" by (rule run_starts_prev) simp_all
  then show ?case using 2 by (simp add: recorded_total_def missing_count_def)
next
  case (3 p cs)
  let ?ns = "takeWhile (\<lambda>c. c = None) cs"
  let ?rest = "dropWhile (\<lambda>c. c = None) cs"
  have nn: "\<forall>c\<in>set ?ns. c = None" by (auto dest: set_takeWhileD)
  have hd: "?rest = [] \<or> hd ?rest \<noteq> None" using hd_dropWhile[of "\<lambda>c. c = None" cs] by blast
  have "run_starts None (?ns @ ?rest) = replicate (length ?ns) None @ run_starts None ?rest"
    using nn by (rule run_starts_nones)
  moreover have "run_starts None ?rest = run_starts (Some 0) ?rest" using hd by (rule run_starts_head)
  ultimately have r: "run_starts None cs = replicate (length ?ns) None @ run_starts (Some 0) ?rest" by simp
  have "recorded_total (run_starts (Some 0) (None # cs)) =
          real (Suc (length ?ns)) + recorded_total (run_starts None cs)"
    by (simp add: recorded_total_def)
  also have "\<dots> = real (Suc (length ?ns)) + real (missing_count ?rest)"
    unfolding r recorded_total_append recorded_total_nones using 3 by simp
  also have "\<dots> = real (missing_count (None # cs))"
    using missing_count_split[of cs] by (simp add: missing_count_def)
  finally show ?case .
qed

lemma find_contiguous_nan_col_span:
  assumes "span_restriction ts = zip [lo..<lo + length cs] cs" "lo + length cs \<le> length ts"
  shows "find_contiguous_nan_col ts =
           replicate lo None @ run_starts (Some 0) cs @ replicate (length ts - (lo + length cs)) None"
proof -
  have m: "map (\<lambda>p. snd p = None) (zip [lo..<lo + length cs] cs) = map (\<lambda>c. c = None) cs"
    by (rule nth_equalityI) auto
  have dd: "groupby_first_size
              (map (\<lambda>q. (fst (fst q), snd q))
                 (filter (\<lambda>q. snd (fst q) = None)
                    (zip (zip [lo..<lo + length cs] cs) (cumsum (map Not (map (\<lambda>c. c = None) cs))))))
            = gap_runs lo cs"
    unfolding cumsum_def sel_keyed by (rule groupby_keyed_gaps)
  have r: "replicate (length ts) (None::cell) =
           replicate lo None @ replicate (length cs) None @ replicate (length ts - (lo + length cs)) None"
    using assms(2) by (simp add: replicate_add[symmetric])
  have "find_contiguous_nan_col ts = scatter (gap_runs lo cs) (replicate (length ts) None)"
    unfolding find_contiguous_nan_col_def Let_def assms(1) m dd scatter_def ..
  also have "\<dots> = replicate lo None @ run_starts (Some 0) cs @ replicate (length ts - (lo + length cs)) None"
    unfolding r by (rule scatter_gap_runs) simp
  finally show ?thesis .
qed

lemma zip_upt_nth: "map (\<lambda>i. (i, ts ! i)) [a..<e] = zip [a..<a + length (map (\<lambda>i. ts ! i) [a..<e])] (map (\<lambda>i. ts ! i) [a..<e])"
  by (rule nth_equalityI) auto

lemma find_contiguous_nan_col_observed:
  assumes "first_valid_index ts = Some a" "last_valid_index ts = Some b"
  shows "find_contiguous_nan_col ts =
           replicate a None @ run_starts (Some 0) (observed_span ts) @ replicate (length ts - Suc b) None"
proof -
  have ab: "a \<le> b" "b < length ts"
    using assms by (cases ts rule: valid_indices_cases; simp)+
  have os: "observed_span ts = map (\<lambda>i. ts ! i) [a..<Suc b]" using assms by (rule observed_span_Some)
  have l: "a + length (observed_span ts) = Suc b" unfolding os using ab by simp
  have "span_restriction ts = zip [a..<a + length (observed_span ts)] (observed_span ts)"
    unfolding span_restriction_Some[OF assms] os by (rule zip_upt_nth)
  then have "find_contiguous_nan_col ts =
           replicate a None @ run_starts (Some 0) (observed_span ts)
             @ replicate (length ts - (a + length (observed_span ts))) None"
    by (rule find_contiguous_nan_col_span) (use l ab in simp)
  then show ?thesis unfolding l .
qed

lemma find_contiguous_nan_col_all_missing:
  assumes "first_valid_index ts = None"
  shows "find_contiguous_nan_col ts = run_starts (Some 0) ts"
proof -
  have ts: "map (\<lambda>i. ts ! i) [0..<length ts] = ts" by (rule map_nth)
  have "span_restriction ts = zip [0..<0 + length ts] ts"
    unfolding span_restriction_None[OF assms] using zip_upt_nth[of ts 0 "length ts"] unfolding ts by simp
  then have "find_contiguous_nan_col ts =
           replicate 0 None @ run_starts (Some 0) ts @ replicate (length ts - (0 + length ts)) None"
    by (rule find_contiguous_nan_col_span) simp
  then show ?thesis by simp
qed

text \<open>On a column with an observed value \<open>find_contiguous_nan\<close> returns the table of
  run lengths of the specification.\<close>

lemma find_contiguous_nan_col_spec:
  assumes "first_valid_index ts = Some a"
  shows "find_contiguous_nan_col ts = gap_lengths_spec ts"
proof -
  obtain b where b: "last_valid_index ts = Some b" "a \<le> b" "b < length ts"
    using assms by (cases ts rule: valid_indices_cases) auto
  have "length (observed_span ts) = Suc b - a"
    unfolding observed_span_Some[OF assms b(1)] by (simp del: upt_Suc)
  then have "a + length (observed_span ts) = Suc b" using b(2) by arith
  then show ?thesis
    unfolding gap_lengths_spec_def Let_def leading_missing[OF assms]
      find_contiguous_nan_col_observed[OF assms b(1)]
    by simp
qed

lemma takeWhile_take_stop:
  assumes "j < k" "j < length xs" "\<not> P (xs ! j)"
  shows "takeWhile P (take k xs) = takeWhile P xs"
proof -
  have "xs ! j \<in> set (take k xs)" using assms(1,2) by (metis in_set_conv_nth length_take min_less_iff_conj nth_take)
  then have "takeWhile P (take k xs @ drop k xs) = takeWhile P (take k xs)"
    using assms(3) by (rule takeWhile_append1)
  then show ?thesis by simp
qed

lemma find_contiguous_nan_col_closed:
  assumes "first_valid_index ts = Some a" "last_valid_index ts = Some b"
  shows "find_contiguous_nan_col ts =
           map (\<lambda>i. if a < i \<and> i < b \<and> ts ! i = None \<and> ts ! (i - 1) \<noteq> None
                    then Some (real (length (takeWhile (\<lambda>c. c = None) (drop i ts)))) else None)
               [0..<length ts]"
proof (rule nth_equalityI)
  have ab: "a \<le> b" "b < length ts"
    using assms by (cases ts rule: valid_indices_cases; simp)+
  have os: "observed_span ts = map (\<lambda>i. ts ! i) [a..<Suc b]" using assms by (rule observed_span_Some)
  have los: "length (observed_span ts) = Suc b - a" unfolding os by (simp del: upt_Suc)
  have os_nth: "observed_span ts ! m = ts ! (a + m)" if "m < Suc b - a" for m
    unfolding os using that by (simp del: upt_Suc)
  have fa: "ts ! a \<noteq> None" and fb: "ts ! b \<noteq> None"
    using assms by (simp_all add: first_valid_index_Some last_valid_index_Some)
  have eq: "find_contiguous_nan_col ts =
           replicate a None @ run_starts (Some 0) (observed_span ts) @ replicate (length ts - Suc b) None"
    using assms by (rule find_contiguous_nan_col_observed)
  show len: "length (find_contiguous_nan_col ts) =
        length (map (\<lambda>i. if a < i \<and> i < b \<and> ts ! i = None \<and> ts ! (i - 1) \<noteq> None
                    then Some (real (length (takeWhile (\<lambda>c. c = None) (drop i ts)))) else None)
               [0..<length ts])"
    unfolding eq using ab by (simp add: length_run_starts los)
  fix i assume "i < length (find_contiguous_nan_col ts)"
  then have i: "i < length ts" using len by simp
  let ?rhs = "if a < i \<and> i < b \<and> ts ! i = None \<and> ts ! (i - 1) \<noteq> None
                    then Some (real (length (takeWhile (\<lambda>c. c = None) (drop i ts)))) else None"
  have "find_contiguous_nan_col ts ! i = ?rhs"
  proof (cases "i < a")
    case True
    then show ?thesis unfolding eq by (simp add: nth_append)
  next
    case False
    show ?thesis
    proof (cases "i \<le> b")
      case False
      have n: "\<not> i - a < Suc b - a" "i - a - (Suc b - a) < length ts - Suc b"
        using False ab i by arith+
      have "find_contiguous_nan_col ts ! i = None"
        unfolding eq using \<open>\<not> i < a\<close> n by (simp add: nth_append length_run_starts los)
      then show ?thesis using False by simp
    next
      case True
      define k where "k = i - a"
      have k: "k < length (observed_span ts)" "i = a + k" using True \<open>\<not> i < a\<close> by (simp_all add: k_def los)
      have "find_contiguous_nan_col ts ! i = run_starts (Some 0) (observed_span ts) ! k"
        unfolding eq k_def using k(1)[unfolded k_def] \<open>\<not> i < a\<close>
        by (simp add: nth_append length_run_starts)
      also have "\<dots> = (if observed_span ts ! k = None \<and> (if k = 0 then Some 0 else observed_span ts ! (k - 1)) \<noteq> None
          then Some (real (length (takeWhile (\<lambda>c. c = None) (drop k (observed_span ts))))) else None)"
        using k(1) by (rule run_starts_nth)
      also have "\<dots> = ?rhs"
      proof (cases "ts ! i = None")
        case False
        moreover have "observed_span ts ! k = ts ! i" using os_nth[of k] k los by simp
        ultimately show ?thesis by auto
      next
        case None: True
        have cur: "observed_span ts ! k = ts ! i" using os_nth[of k] k los by simp
        have ia: "a < i" using None fa \<open>\<not> i < a\<close> by (metis nat_neq_iff)
        have ib: "i < b" using None fb True by (metis le_neq_implies_less)
        have k0: "k \<noteq> 0" using ia k(2) by simp
        have prev: "observed_span ts ! (k - 1) = ts ! (i - 1)" using os_nth[of "k - 1"] k los k0 by simp
        have "drop k (observed_span ts) = take (Suc b - i) (drop i ts)"
          unfolding os by (rule nth_equalityI) (use k ab True in \<open>auto simp: los add.assoc simp del: upt_Suc\<close>)
        moreover have "takeWhile (\<lambda>c. c = None) (take (Suc b - i) (drop i ts)) = takeWhile (\<lambda>c. c = None) (drop i ts)"
          by (rule takeWhile_take_stop[where j = "b - i"]) (use ib ab fb in auto)
        ultimately have "length (takeWhile (\<lambda>c. c = None) (drop k (observed_span ts)))
            = length (takeWhile (\<lambda>c. c = None) (drop i ts))" by simp
        then show ?thesis using cur prev k0 ia ib None by simp
      qed
      finally show ?thesis .
    qed
  qed
  then show "find_contiguous_nan_col ts ! i =
        map (\<lambda>i. if a < i \<and> i < b \<and> ts ! i = None \<and> ts ! (i - 1) \<noteq> None
                    then Some (real (length (takeWhile (\<lambda>c. c = None) (drop i ts)))) else None)
               [0..<length ts] ! i"
    using i by simp
qed

lemma recorded_total_find_contiguous_nan:
  "recorded_total (find_contiguous_nan_col ts) =
     real (missing_count (case first_valid_index ts of None \<Rightarrow> ts | Some a \<Rightarrow> observed_span ts))"
proof (cases ts rule: valid_indices_cases)
  case none
  then show ?thesis by (simp add: find_contiguous_nan_col_all_missing recorded_total_run_starts)
next
  case (some a b)
  then show ?thesis
    by (simp add: find_contiguous_nan_col_observed recorded_total_append recorded_total_nones
        recorded_total_run_starts)
qed

section \<open>Columns and rows at the edge of the observed span\<close>

text \<open>
  Claim C1, evaluated. On the column \<open>1, 2, 3\<close> with the window length 2 the window
  that ends at the second row lies within the span, and \<open>nan_by_window\<close> holds a
  missing marker there, where the specification has the count 0; on \<open>1, 2, 3, NaN\<close>
  the windows that end at the second and at the third row, the last observed one, lie
  within the span, and the whole column is missing.
\<close>

theorem nan_by_window_edges:
  "nan_by_window [[Some 1, Some 2, Some 3]] 2 = Inr [[None, None, Some 0]]
   \<and> window_counts_spec [Some 1, Some 2, Some 3] 2 = [None, Some 0, Some 0]
   \<and> nan_by_window [[Some 1, Some 2, Some 3, None]] 2 = Inr [[None, None, None, None]]
   \<and> window_counts_spec [Some 1, Some 2, Some 3, None] 2 = [None, Some 0, Some 0, None]"
  by code_simp

text \<open>
  Claim C2, evaluated. A column of two missing values has an empty ObservedSpan, so the
  specification has a missing marker at both rows, and \<open>find_contiguous_nan\<close> records
  a run of length 2 at the first row.
\<close>

theorem find_contiguous_nan_all_missing:
  "find_contiguous_nan [[None, None]] = [[Some 2, None]]
   \<and> observed_span [None, None] = []
   \<and> gap_lengths_spec [None, None] = [None, None]"
  by code_simp

text \<open>
  Claim C3, evaluated. For a column of three missing values \<open>pc_nan\<close> returns 100,
  \<open>find_contiguous_nan\<close> records a run of length 3 at the first row, and
  \<open>nan_by_window\<close> with the window length 1 counts one missing value at the second
  and at the third row. For a column whose only row holds a value, shorter than the
  window length 2, \<open>nan_by_window\<close> raises a ValueError.
\<close>

theorem all_missing_column_outputs:
  "pc_nan [[None, None, None]] = [Some 100]
   \<and> find_contiguous_nan [[None, None, None]] = [[Some 3, None, None]]
   \<and> nan_by_window [[None, None, None]] 1 = Inr [[None, Some 1, Some 1]]
   \<and> nan_by_window [[Some 1]] 2 = Inl ValueError"
  by code_simp

text \<open>
  Claim C7, evaluated. For a column of two missing values the run lengths recorded by
  \<open>find_contiguous_nan\<close> sum to 2, and its ObservedSpan has no missing entry.
\<close>

theorem recorded_total_all_missing:
  "recorded_total (find_contiguous_nan [[None, None]] ! 0) = 2
   \<and> missing_count (observed_span [None, None]) = 0"
  by code_simp

end
